theory Spec2Isabelle
  imports Main "HOL-Library.Sublist"
begin

section \<open>The snapshot stream writer\<close>

text \<open>
  A shallow embedding of \<^verbatim>\<open>tensorflow/core/data/service/snapshot/snapshot_stream_writer.cc\<close>.
  The writer drains a dataset iterator on a background thread and stores the elements
  in chunk files: a chunk is written under the stream's uncommitted directory and then
  renamed into the committed directory.

  The member functions are state transformers on a record that holds the members of
  \<^verbatim>\<open>SnapshotStreamWriter\<close> together with everything the functions act on: the
  iterator, the file system, and the other threads.
\<close>

subsection \<open>Status\<close>

text \<open>The error codes of \<^verbatim>\<open>tsl::Status\<close>; the code \<^verbatim>\<open>OK\<close> is the constructor \<open>OkStatus\<close>.\<close>

datatype code =
    CANCELLED | UNKNOWN | INVALID_ARGUMENT | DEADLINE_EXCEEDED | NOT_FOUND
  | ALREADY_EXISTS | PERMISSION_DENIED | RESOURCE_EXHAUSTED | FAILED_PRECONDITION
  | ABORTED | OUT_OF_RANGE | UNIMPLEMENTED | INTERNAL | UNAVAILABLE | DATA_LOSS
  | UNAUTHENTICATED

datatype Status = OkStatus | Error code string

fun ok :: "Status \<Rightarrow> bool" where
  "ok OkStatus = True"
| "ok (Error c m) = False"

definition errors_Cancelled :: "string \<Rightarrow> Status" where
  "errors_Cancelled m = Error CANCELLED m"

subsection \<open>Elements, iterator results, events\<close>

text \<open>
  Modelled from the spec: the element type \<^verbatim>\<open>std::vector<Tensor>\<close> and
  \<^verbatim>\<open>EstimatedSizeBytes\<close> are declared outside this file. An element is an opaque
  payload together with its estimated size in bytes.
\<close>

datatype element = Tensors (payload: nat) (EstimatedSizeBytes: int)

text \<open>
  What one call of \<^verbatim>\<open>iterator_->GetNext(element, end_of_sequence)\<close> gives: an element
  (status ok, \<^verbatim>\<open>end_of_sequence = false\<close>), the end of the sequence (status ok,
  \<^verbatim>\<open>end_of_sequence = true\<close>), or an error status.
\<close>

datatype next_result = Element element | EndOfSequence | Failed code string

text \<open>
  A chunk file is named \<^verbatim>\<open>chunk_<index>\<close>, in the uncommitted directory of the stream
  or in the committed directory of the snapshot; the model names the file by the index.

  The events are the calls that go out of the writer: to the mutex, the iterator, the
  record writer of a chunk file, and the file system. \<open>EvClose\<close> is the call of
  \<^verbatim>\<open>Close\<close> in \<^verbatim>\<open>WriteRecord\<close>, \<open>EvCleanup\<close> the call of \<^verbatim>\<open>Close\<close> by the cleanup
  object of \<^verbatim>\<open>WriteChunk\<close>.
\<close>

type_synonym chunk_file = int

datatype event =
    EvLock
  | EvUnlock
  | EvCreateDir Status
  | EvInitialize chunk_file Status
  | EvGetNext next_result
  | EvWriteTensors chunk_file element Status
  | EvClose chunk_file Status
  | EvCleanup chunk_file Status
  | EvRename chunk_file Status

subsection \<open>The writer and the world around it\<close>

text \<open>
  The members \<^verbatim>\<open>status_\<close>, \<^verbatim>\<open>end_of_sequence_\<close>, \<^verbatim>\<open>chunk_index_\<close>,
  \<^verbatim>\<open>chunk_size_bytes_\<close>, \<^verbatim>\<open>max_chunk_size_bytes_\<close> and \<^verbatim>\<open>iterator_\<close> keep their
  names, without the last underscore. The 64-bit integers are \<open>int\<close>, and the addition
  to \<open>chunk_size_bytes\<close> wraps around at 64 bits (\<open>wrap64\<close>, two's complement).

  \<^item> \<open>iterator\<close> is the list of results the iterator still has to give; an iterator whose
    list is used up reports the end of the sequence.
  \<^item> \<open>env_results\<close> is the list of statuses that the calls to the file system and to the
    record writer return, in the order of the calls; when the list is used up every call
    succeeds.
  \<^item> \<open>cancels\<close> says, for each acquisition of the mutex, whether another thread ran
    \<^verbatim>\<open>Cancel\<close> since the mutex was last released; when the list is used up no thread does.
  \<^item> \<open>uncommitted_chunks\<close> maps the chunk files in the uncommitted directory to their
    records; \<open>committed_chunks\<close> lists the files of the committed directory with their
    records, in the order of their arrival.
  \<^item> \<open>trace\<close> is the list of events so far.
\<close>

record SnapshotStreamWriter =
  max_chunk_size_bytes :: int
  iterator :: "next_result list"
  status :: Status
  end_of_sequence :: bool
  chunk_index :: int
  chunk_size_bytes :: int
  env_results :: "Status list"
  cancels :: "bool list"
  uncommitted_chunks :: "chunk_file \<rightharpoonup> element list"
  committed_chunks :: "(chunk_file \<times> element list) list"
  trace :: "event list"

definition wrap64 :: "int \<Rightarrow> int" where
  "wrap64 x = (x + 9223372036854775808) mod 18446744073709551616 - 9223372036854775808"

definition kDefaultMaxChunkSizeBytes :: int where
  "kDefaultMaxChunkSizeBytes = 10 * 2 ^ 30"

definition kCancelledMessage :: string where
  "kCancelledMessage = ''The tf.data service snapshot writer has been cancelled.''"

text \<open>
  Modelled from the spec: the initial values of the members are set in the header, which
  is not part of the sources: the status is ok, the end of the sequence has not been seen,
  \<open>chunk_index\<close> starts at 0 and no byte has been written. The constructor also starts the
  thread that runs \<open>snapshot_fn\<close> below.
\<close>

definition new_SnapshotStreamWriter ::
  "next_result list \<Rightarrow> int option \<Rightarrow> Status list \<Rightarrow> bool list \<Rightarrow> SnapshotStreamWriter" where
  "new_SnapshotStreamWriter it max_opt results cs =
     \<lparr> max_chunk_size_bytes =
         (case max_opt of Some m \<Rightarrow> m | None \<Rightarrow> kDefaultMaxChunkSizeBytes),
       iterator = it,
       status = OkStatus,
       end_of_sequence = False,
       chunk_index = 0,
       chunk_size_bytes = 0,
       env_results = results,
       cancels = cs,
       uncommitted_chunks = Map.empty,
       committed_chunks = [],
       trace = [] \<rparr>"

subsection \<open>The mutex\<close>

text \<open>
  \<^verbatim>\<open>Cancel\<close> only assigns to \<^verbatim>\<open>status_\<close>, under the mutex. An interleaving of the
  background thread with the threads that call \<^verbatim>\<open>Cancel\<close> is therefore fixed by
  saying, for each acquisition of the mutex, whether a \<^verbatim>\<open>Cancel\<close> came first.
\<close>

definition cancel_pending :: "SnapshotStreamWriter \<Rightarrow> bool" where
  "cancel_pending s = (case cancels s of [] \<Rightarrow> False | c # cs \<Rightarrow> c)"

definition mutex_lock :: "SnapshotStreamWriter \<Rightarrow> SnapshotStreamWriter" where
  "mutex_lock s =
     s\<lparr> status := (if cancel_pending s then errors_Cancelled kCancelledMessage else status s),
        cancels := tl (cancels s),
        trace := trace s @ [EvLock] \<rparr>"

definition mutex_unlock :: "SnapshotStreamWriter \<Rightarrow> SnapshotStreamWriter" where
  "mutex_unlock s = s\<lparr> trace := trace s @ [EvUnlock] \<rparr>"

subsection \<open>The file system, the record writer and the iterator\<close>

text \<open>
  Modelled from the spec: \<^verbatim>\<open>Env\<close>, \<^verbatim>\<open>snapshot_util::TFRecordWriter\<close> and
  \<^verbatim>\<open>TaskIterator\<close> are declared outside this file. A call returns the next status of
  \<open>env_results\<close> and has its effect when that status is ok: \<^verbatim>\<open>Initialize\<close> creates the
  empty file, \<^verbatim>\<open>WriteTensors\<close> appends one record, \<^verbatim>\<open>RenameFile\<close> moves the file from
  the uncommitted to the committed directory and fails when there is no such file.
\<close>

definition next_env_result :: "SnapshotStreamWriter \<Rightarrow> Status" where
  "next_env_result s = (case env_results s of [] \<Rightarrow> OkStatus | r # rs \<Rightarrow> r)"

definition RecursivelyCreateDir :: "SnapshotStreamWriter \<Rightarrow> Status \<times> SnapshotStreamWriter" where
  "RecursivelyCreateDir s =
     (let r = next_env_result s in
      (r, s\<lparr> env_results := tl (env_results s), trace := trace s @ [EvCreateDir r] \<rparr>))"

definition Initialize :: "chunk_file \<Rightarrow> SnapshotStreamWriter \<Rightarrow> Status \<times> SnapshotStreamWriter" where
  "Initialize f s =
     (let r = next_env_result s in
      (r, s\<lparr> env_results := tl (env_results s),
             uncommitted_chunks :=
               (if ok r then (uncommitted_chunks s)(f \<mapsto> []) else uncommitted_chunks s),
             trace := trace s @ [EvInitialize f r] \<rparr>))"

definition WriteTensors ::
  "chunk_file \<Rightarrow> element \<Rightarrow> SnapshotStreamWriter \<Rightarrow> Status \<times> SnapshotStreamWriter" where
  "WriteTensors f e s =
     (let r = next_env_result s in
      (r, s\<lparr> env_results := tl (env_results s),
             uncommitted_chunks :=
               (if ok r
                then (uncommitted_chunks s)
                       (f \<mapsto> (case uncommitted_chunks s f of None \<Rightarrow> [e] | Some es \<Rightarrow> es @ [e]))
                else uncommitted_chunks s),
             trace := trace s @ [EvWriteTensors f e r] \<rparr>))"

definition Close :: "chunk_file \<Rightarrow> SnapshotStreamWriter \<Rightarrow> Status \<times> SnapshotStreamWriter" where
  "Close f s =
     (let r = next_env_result s in
      (r, s\<lparr> env_results := tl (env_results s), trace := trace s @ [EvClose f r] \<rparr>))"

definition RenameFile :: "chunk_file \<Rightarrow> SnapshotStreamWriter \<Rightarrow> Status \<times> SnapshotStreamWriter" where
  "RenameFile f s =
     (case uncommitted_chunks s f of
        None \<Rightarrow>
          (Error NOT_FOUND [],
           s\<lparr> trace := trace s @ [EvRename f (Error NOT_FOUND [])] \<rparr>)
      | Some es \<Rightarrow>
          (let r = next_env_result s in
           (r, s\<lparr> env_results := tl (env_results s),
                  uncommitted_chunks :=
                    (if ok r then (uncommitted_chunks s)(f := None) else uncommitted_chunks s),
                  committed_chunks :=
                    (if ok r then committed_chunks s @ [(f, es)] else committed_chunks s),
                  trace := trace s @ [EvRename f r] \<rparr>)))"

definition GetNext :: "SnapshotStreamWriter \<Rightarrow> next_result \<times> SnapshotStreamWriter" where
  "GetNext s =
     (let r = (case iterator s of [] \<Rightarrow> EndOfSequence | x # xs \<Rightarrow> x) in
      (r, s\<lparr> iterator := tl (iterator s), trace := trace s @ [EvGetNext r] \<rparr>))"

subsection \<open>The member functions\<close>

text \<open>\<^verbatim>\<open>Cancel\<close> and \<^verbatim>\<open>status\<close> (the member function, here \<open>get_status\<close>).\<close>

definition Cancel :: "SnapshotStreamWriter \<Rightarrow> SnapshotStreamWriter" where
  "Cancel s =
     (let s1 = mutex_lock s in
      mutex_unlock (s1\<lparr> status := errors_Cancelled kCancelledMessage \<rparr>))"

definition get_status :: "SnapshotStreamWriter \<Rightarrow> Status \<times> SnapshotStreamWriter" where
  "get_status s = (let s1 = mutex_lock s in (status s1, mutex_unlock s1))"

definition CreateChunksDirectory :: "SnapshotStreamWriter \<Rightarrow> Status \<times> SnapshotStreamWriter" where
  "CreateChunksDirectory s = RecursivelyCreateDir s"

definition ShouldWriteChunk :: "SnapshotStreamWriter \<Rightarrow> bool \<times> SnapshotStreamWriter" where
  "ShouldWriteChunk s =
     (let s1 = mutex_lock s in
      (\<not> end_of_sequence s1 \<and> ok (status s1), mutex_unlock s1))"

definition GetChunkFilePath :: "SnapshotStreamWriter \<Rightarrow> chunk_file \<times> SnapshotStreamWriter" where
  "GetChunkFilePath s = (let s1 = mutex_lock s in (chunk_index s1, mutex_unlock s1))"

definition CommitChunk :: "chunk_file \<Rightarrow> SnapshotStreamWriter \<Rightarrow> Status \<times> SnapshotStreamWriter" where
  "CommitChunk f s =
     (case RenameFile f s of
        (Error c m, s1) \<Rightarrow> (Error c m, s1)
      | (OkStatus, s1) \<Rightarrow>
          (let s2 = mutex_lock s1 in
           (OkStatus,
            mutex_unlock (s2\<lparr> chunk_index := chunk_index s2 + 1, chunk_size_bytes := 0 \<rparr>))))"

definition ShouldWriteRecord :: "SnapshotStreamWriter \<Rightarrow> bool \<times> SnapshotStreamWriter" where
  "ShouldWriteRecord s =
     (let s1 = mutex_lock s in
      (chunk_size_bytes s1 < max_chunk_size_bytes s1 \<and> \<not> end_of_sequence s1 \<and> ok (status s1),
       mutex_unlock s1))"

text \<open>
  \<^verbatim>\<open>WriteRecord\<close>: the iterator is asked for the next element inside the first scope of
  the mutex; an error of the iterator leaves that scope at once.
\<close>

definition WriteRecord :: "chunk_file \<Rightarrow> SnapshotStreamWriter \<Rightarrow> Status \<times> SnapshotStreamWriter" where
  "WriteRecord writer s =
     (case GetNext (mutex_lock s) of
        (Failed c m, s1) \<Rightarrow> (Error c m, mutex_unlock s1)
      | (EndOfSequence, s1) \<Rightarrow>
          Close writer (mutex_unlock (s1\<lparr> end_of_sequence := True \<rparr>))
      | (Element e, s1) \<Rightarrow>
          (case WriteTensors writer e (mutex_unlock (s1\<lparr> end_of_sequence := False \<rparr>)) of
             (Error c m, s2) \<Rightarrow> (Error c m, s2)
           | (OkStatus, s2) \<Rightarrow>
               (let s3 = mutex_lock s2 in
                (OkStatus,
                 mutex_unlock
                   (s3\<lparr> chunk_size_bytes :=
                         wrap64 (chunk_size_bytes s3 + EstimatedSizeBytes e) \<rparr>)))))"

text \<open>What is left of the iterator bounds the number of records a chunk can still take.\<close>

definition remaining :: "SnapshotStreamWriter \<Rightarrow> nat" where
  "remaining s = length (iterator s) + (if end_of_sequence s then 0 else 1)"

lemma ShouldWriteRecord_remaining:
  "ShouldWriteRecord s = (True, s1) \<Longrightarrow> \<not> end_of_sequence s1 \<and> remaining s1 = remaining s"
  by (auto simp: ShouldWriteRecord_def mutex_lock_def mutex_unlock_def remaining_def Let_def)

lemma WriteRecord_remaining:
  "WriteRecord w s = (OkStatus, s2) \<Longrightarrow> \<not> end_of_sequence s \<Longrightarrow> remaining s2 < remaining s"
  by (auto simp: WriteRecord_def GetNext_def WriteTensors_def Close_def mutex_lock_def
        mutex_unlock_def remaining_def Let_def
      split: list.splits next_result.splits Status.splits prod.splits if_splits)

text \<open>The loop of \<^verbatim>\<open>WriteChunk\<close>.\<close>

function WriteChunk_loop :: "chunk_file \<Rightarrow> SnapshotStreamWriter \<Rightarrow> Status \<times> SnapshotStreamWriter" where
  "WriteChunk_loop writer s =
     (case ShouldWriteRecord s of
        (True, s1) \<Rightarrow>
          (case WriteRecord writer s1 of
             (Error c m, s2) \<Rightarrow> (Error c m, s2)
           | (OkStatus, s2) \<Rightarrow> WriteChunk_loop writer s2)
      | (False, s1) \<Rightarrow> (OkStatus, s1))"
  by pat_completeness auto
termination
proof (relation "measure (\<lambda>(w, s). remaining s)")
  show "wf (measure (\<lambda>(w, s). remaining s))" by simp
next
  fix writer s b s1 r s2
  assume "(b, s1) = ShouldWriteRecord s" "b = True"
    and "(r, s2) = WriteRecord writer s1" "r = OkStatus"
  then have "ShouldWriteRecord s = (True, s1)" "WriteRecord writer s1 = (OkStatus, s2)"
    by simp_all
  then show "((writer, s2), (writer, s)) \<in> measure (\<lambda>(w, s). remaining s)"
    using ShouldWriteRecord_remaining [of s s1] WriteRecord_remaining [of writer s1 s2] by simp
qed

declare WriteChunk_loop.simps [simp del]

text \<open>
  \<^verbatim>\<open>WriteChunk\<close>. The cleanup object closes the record writer when the function is left
  after the writer has been initialised: after \<^verbatim>\<open>CommitChunk\<close> has returned, or when
  \<^verbatim>\<open>WriteRecord\<close> has failed. It calls \<^verbatim>\<open>Close\<close> and ignores the status; the call
  is the event \<open>EvCleanup\<close>.
\<close>

definition cleanup :: "chunk_file \<Rightarrow> SnapshotStreamWriter \<Rightarrow> SnapshotStreamWriter" where
  "cleanup writer s =
     s\<lparr> env_results := tl (env_results s),
        trace := trace s @ [EvCleanup writer (next_env_result s)] \<rparr>"

definition WriteChunk :: "SnapshotStreamWriter \<Rightarrow> Status \<times> SnapshotStreamWriter" where
  "WriteChunk s =
     (case GetChunkFilePath s of
        (chunk_file_path, s1) \<Rightarrow>
          (case Initialize chunk_file_path s1 of
             (Error c m, s2) \<Rightarrow> (Error c m, s2)
           | (OkStatus, s2) \<Rightarrow>
               (case WriteChunk_loop chunk_file_path s2 of
                  (Error c m, s3) \<Rightarrow> (Error c m, cleanup chunk_file_path s3)
                | (OkStatus, s3) \<Rightarrow>
                    (case CommitChunk chunk_file_path s3 of
                       (r, s4) \<Rightarrow> (r, cleanup chunk_file_path s4)))))"

text \<open>
  The loop of \<^verbatim>\<open>WriteSnapshotFn\<close> need not end: with a maximal chunk size of 0 it commits
  empty chunks for as long as the renaming succeeds. The first argument bounds the number
  of chunks; the result \<open>None\<close> says that the loop was still running after that many chunks,
  in the state given with it.
\<close>

fun WriteSnapshotFn_loop :: "nat \<Rightarrow> SnapshotStreamWriter \<Rightarrow> Status option \<times> SnapshotStreamWriter" where
  "WriteSnapshotFn_loop 0 s = (None, s)"
| "WriteSnapshotFn_loop (Suc n) s =
     (case ShouldWriteChunk s of
        (True, s1) \<Rightarrow>
          (case WriteChunk s1 of
             (Error c m, s2) \<Rightarrow> (Some (Error c m), s2)
           | (OkStatus, s2) \<Rightarrow> WriteSnapshotFn_loop n s2)
      | (False, s1) \<Rightarrow> (case get_status s1 of (r, s2) \<Rightarrow> (Some r, s2)))"

definition WriteSnapshotFn :: "nat \<Rightarrow> SnapshotStreamWriter \<Rightarrow> Status option \<times> SnapshotStreamWriter" where
  "WriteSnapshotFn n s =
     (case CreateChunksDirectory s of
        (Error c m, s1) \<Rightarrow> (Some (Error c m), s1)
      | (OkStatus, s1) \<Rightarrow> WriteSnapshotFn_loop n s1)"

text \<open>
  The function that \<^verbatim>\<open>RunSnapshotThread\<close> starts on the background thread. The result
  says whether the thread has come to its end.
\<close>

definition snapshot_fn :: "nat \<Rightarrow> SnapshotStreamWriter \<Rightarrow> bool \<times> SnapshotStreamWriter" where
  "snapshot_fn n s =
     (case WriteSnapshotFn n s of
        (None, s1) \<Rightarrow> (False, s1)
      | (Some OkStatus, s1) \<Rightarrow> (True, s1)
      | (Some (Error c m), s1) \<Rightarrow>
          (let s2 = mutex_lock s1 in (True, mutex_unlock (s2\<lparr> status := Error c m \<rparr>))))"

text \<open>
  \<^verbatim>\<open>Wait\<close> joins the background thread and then reads the status under the mutex: it is
  applied to the state in which the thread has ended.
\<close>

definition Wait :: "SnapshotStreamWriter \<Rightarrow> Status \<times> SnapshotStreamWriter" where
  "Wait s = (let s1 = mutex_lock s in (status s1, mutex_unlock s1))"

text \<open>
  With a maximal chunk size of 0 the thread never asks the iterator: it has committed four
  empty chunks after four rounds of the loop and has not come to its end.
\<close>

lemma zero_max_chunk_size:
  "\<not> fst (snapshot_fn 4 (new_SnapshotStreamWriter [Element (Tensors 1 300)] (Some 0) [] [])) \<and>
   committed_chunks
     (snd (snapshot_fn 4 (new_SnapshotStreamWriter [Element (Tensors 1 300)] (Some 0) [] []))) =
     [(0, []), (1, []), (2, []), (3, [])] \<and>
   iterator
     (snd (snapshot_fn 4 (new_SnapshotStreamWriter [Element (Tensors 1 300)] (Some 0) [] []))) =
     [Element (Tensors 1 300)]"
  by code_simp

section \<open>The chunks of a run\<close>

text \<open>The elements that the iterator has given so far, in the order of the calls.\<close>

fun pulled :: "event list \<Rightarrow> element list" where
  "pulled [] = []"
| "pulled (EvGetNext (Element e) # t) = e # pulled t"
| "pulled (ev # t) = pulled t"

text \<open>
  What holds of the chunks in every state of a run with the maximal chunk size \<open>m\<close>
  (\<open>chunks_inv\<close>), between two chunks (\<open>at_boundary\<close>), and while the chunk file \<open>f\<close> is
  being filled (\<open>filling\<close>).
\<close>

definition chunks_inv :: "int \<Rightarrow> SnapshotStreamWriter \<Rightarrow> bool" where
  "chunks_inv m s \<longleftrightarrow>
     max_chunk_size_bytes s = m \<and>
     map fst (committed_chunks s) = map int [0..<length (committed_chunks s)] \<and>
     prefix (concat (map snd (committed_chunks s))) (pulled (trace s))"

definition at_boundary :: "int \<Rightarrow> SnapshotStreamWriter \<Rightarrow> bool" where
  "at_boundary m s \<longleftrightarrow>
     chunks_inv m s \<and>
     chunk_index s = int (length (committed_chunks s)) \<and>
     chunk_size_bytes s = 0 \<and>
     concat (map snd (committed_chunks s)) = pulled (trace s)"

definition filling :: "int \<Rightarrow> chunk_file \<Rightarrow> SnapshotStreamWriter \<Rightarrow> bool" where
  "filling m f s \<longleftrightarrow>
     chunks_inv m s \<and>
     f = chunk_index s \<and>
     chunk_index s = int (length (committed_chunks s)) \<and>
     (\<exists>es. uncommitted_chunks s f = Some es \<and>
           concat (map snd (committed_chunks s)) @ es = pulled (trace s))"

lemmas prim_defs = mutex_lock_def mutex_unlock_def next_env_result_def RecursivelyCreateDir_def
  Initialize_def WriteTensors_def Close_def RenameFile_def GetNext_def cleanup_def Let_def

lemma pulled_append: "pulled (a @ b) = pulled a @ pulled b"
  by (induction a rule: pulled.induct) auto

lemma at_boundary_chunks_inv: "at_boundary m s \<Longrightarrow> chunks_inv m s"
  by (simp add: at_boundary_def)

lemma at_boundary_ShouldWriteChunk:
  "at_boundary m s \<Longrightarrow> ShouldWriteChunk s = (b, s1) \<Longrightarrow> at_boundary m s1"
  by (auto simp: ShouldWriteChunk_def prim_defs at_boundary_def chunks_inv_def pulled_append)

lemma at_boundary_GetChunkFilePath:
  "at_boundary m s \<Longrightarrow> GetChunkFilePath s = (f, s1) \<Longrightarrow> at_boundary m s1 \<and> f = chunk_index s1"
  by (auto simp: GetChunkFilePath_def prim_defs at_boundary_def chunks_inv_def pulled_append)

lemma at_boundary_Initialize:
  "at_boundary m s \<Longrightarrow> Initialize (chunk_index s) s = (r, s1) \<Longrightarrow>
     (r = OkStatus \<longrightarrow> filling m (chunk_index s) s1) \<and> chunks_inv m s1"
  by (auto simp: prim_defs at_boundary_def filling_def chunks_inv_def pulled_append
      split: list.splits)

lemma filling_ShouldWriteRecord:
  "filling m f s \<Longrightarrow> ShouldWriteRecord s = (b, s1) \<Longrightarrow>
     filling m f s1 \<and> (b \<longrightarrow> chunk_size_bytes s1 < m)"
  by (auto simp: ShouldWriteRecord_def prim_defs filling_def chunks_inv_def pulled_append)

lemma filling_WriteRecord:
  "filling m f s \<Longrightarrow> chunk_size_bytes s < m \<Longrightarrow> WriteRecord f s = (r, s1) \<Longrightarrow>
     (r = OkStatus \<longrightarrow> filling m f s1) \<and> chunks_inv m s1"
  by (auto simp: WriteRecord_def prim_defs filling_def chunks_inv_def pulled_append
      split: list.splits next_result.splits Status.splits if_splits)

lemma filling_WriteChunk_loop:
  "filling m f s \<Longrightarrow> WriteChunk_loop f s = (r, s') \<Longrightarrow>
     (r = OkStatus \<longrightarrow> filling m f s') \<and> chunks_inv m s'"
proof (induction f s arbitrary: r s' rule: WriteChunk_loop.induct)
  case (1 writer s)
  obtain b s1 where g: "ShouldWriteRecord s = (b, s1)" by (cases "ShouldWriteRecord s")
  from filling_ShouldWriteRecord [OF "1.prems"(1) g]
  have f1: "filling m writer s1" and lt: "b \<Longrightarrow> chunk_size_bytes s1 < m"
    by simp_all
  show ?case
  proof (cases b)
    case False
    with g "1.prems"(2) have "r = OkStatus" "s' = s1"
      by (simp_all add: WriteChunk_loop.simps [of writer s])
    with f1 show ?thesis by (auto simp: filling_def)
  next
    case True
    obtain r2 s2 where w: "WriteRecord writer s1 = (r2, s2)" by (cases "WriteRecord writer s1")
    from filling_WriteRecord [OF f1 lt [OF True] w]
    have f2: "r2 = OkStatus \<Longrightarrow> filling m writer s2" and c2: "chunks_inv m s2" by simp_all
    show ?thesis
    proof (cases r2)
      case OkStatus
      with g True w "1.prems"(2) have "WriteChunk_loop writer s2 = (r, s')"
        by (simp add: WriteChunk_loop.simps [of writer s])
      moreover have "b = True" using True by simp
      ultimately show ?thesis
        using "1.IH" [OF g [symmetric] _ w [symmetric] OkStatus f2 [OF OkStatus]] by blast
    next
      case (Error c e)
      with g True w "1.prems"(2) have "r = Error c e" "s' = s2"
        by (simp_all add: WriteChunk_loop.simps [of writer s])
      with c2 show ?thesis by simp
    qed
  qed
qed

lemma filling_CommitChunk:
  "filling m f s \<Longrightarrow> CommitChunk f s = (r, s1) \<Longrightarrow>
     (r = OkStatus \<longrightarrow> at_boundary m s1) \<and> chunks_inv m s1"
  by (auto simp: CommitChunk_def prim_defs filling_def at_boundary_def chunks_inv_def
        pulled_append
      split: list.splits Status.splits if_splits)

lemma at_boundary_cleanup: "at_boundary m s \<Longrightarrow> at_boundary m (cleanup f s)"
  by (simp add: prim_defs at_boundary_def chunks_inv_def pulled_append)

lemma chunks_inv_cleanup: "chunks_inv m s \<Longrightarrow> chunks_inv m (cleanup f s)"
  by (simp add: prim_defs chunks_inv_def pulled_append)

lemma at_boundary_WriteChunk:
  assumes a: "at_boundary m s" and w: "WriteChunk s = (r, s')"
  shows "(r = OkStatus \<longrightarrow> at_boundary m s') \<and> chunks_inv m s'"
proof -
  obtain f s1 where p: "GetChunkFilePath s = (f, s1)" by (cases "GetChunkFilePath s")
  from at_boundary_GetChunkFilePath [OF a p]
  have a1: "at_boundary m s1" and f: "f = chunk_index s1" by simp_all
  obtain r2 s2 where i: "Initialize f s1 = (r2, s2)" by (cases "Initialize f s1")
  from at_boundary_Initialize [OF a1 i [unfolded f]] f
  have f2: "r2 = OkStatus \<Longrightarrow> filling m f s2" and c2: "chunks_inv m s2" by simp_all
  show ?thesis
  proof (cases r2)
    case (Error c e)
    with p i w c2 show ?thesis by (auto simp: WriteChunk_def)
  next
    case OkStatus
    obtain r3 s3 where l: "WriteChunk_loop f s2 = (r3, s3)" by (cases "WriteChunk_loop f s2")
    from filling_WriteChunk_loop [OF f2 [OF OkStatus] l]
    have f3: "r3 = OkStatus \<Longrightarrow> filling m f s3" and c3: "chunks_inv m s3" by simp_all
    show ?thesis
    proof (cases r3)
      case (Error c e)
      with p i l w OkStatus c3 show ?thesis by (auto simp: WriteChunk_def chunks_inv_cleanup)
    next
      case ok3: OkStatus
      obtain r4 s4 where c: "CommitChunk f s3 = (r4, s4)" by (cases "CommitChunk f s3")
      from filling_CommitChunk [OF f3 [OF ok3] c]
      have "r4 = OkStatus \<longrightarrow> at_boundary m s4" "chunks_inv m s4" by simp_all
      with p i l c w OkStatus ok3 show ?thesis
        by (auto simp: WriteChunk_def chunks_inv_cleanup at_boundary_cleanup)
    qed
  qed
qed

lemma chunks_inv_get_status: "chunks_inv m s \<Longrightarrow> chunks_inv m (snd (get_status s))"
  by (simp add: get_status_def prim_defs chunks_inv_def pulled_append)

lemma chunks_inv_WriteSnapshotFn_loop:
  "at_boundary m s \<Longrightarrow> chunks_inv m (snd (WriteSnapshotFn_loop n s))"
proof (induction n arbitrary: s)
  case 0
  then show ?case by (simp add: at_boundary_chunks_inv)
next
  case (Suc n)
  obtain b s1 where g: "ShouldWriteChunk s = (b, s1)" by (cases "ShouldWriteChunk s")
  from at_boundary_ShouldWriteChunk [OF Suc.prems g] have a1: "at_boundary m s1" .
  show ?case
  proof (cases b)
    case False
    with g a1 show ?thesis
      using chunks_inv_get_status [of m s1]
      by (auto simp: at_boundary_chunks_inv split: prod.splits)
  next
    case True
    obtain r2 s2 where w: "WriteChunk s1 = (r2, s2)" by (cases "WriteChunk s1")
    from at_boundary_WriteChunk [OF a1 w]
    have "r2 = OkStatus \<longrightarrow> at_boundary m s2" "chunks_inv m s2" by simp_all
    with g True w Suc.IH [of s2] show ?thesis by (cases r2) simp_all
  qed
qed

definition configured_max :: "int option \<Rightarrow> int" where
  "configured_max max_opt = (case max_opt of Some m \<Rightarrow> m | None \<Rightarrow> kDefaultMaxChunkSizeBytes)"

lemma at_boundary_new:
  "at_boundary (configured_max mx) (new_SnapshotStreamWriter it mx rs cs)"
  by (simp add: new_SnapshotStreamWriter_def at_boundary_def chunks_inv_def configured_max_def)

lemma chunks_inv_snapshot_fn:
  "chunks_inv (configured_max mx) (snd (snapshot_fn n (new_SnapshotStreamWriter it mx rs cs)))"
proof -
  let ?s = "new_SnapshotStreamWriter it mx rs cs" and ?m = "configured_max mx"
  obtain r1 s1 where d: "CreateChunksDirectory ?s = (r1, s1)"
    by (cases "CreateChunksDirectory ?s")
  with at_boundary_new [of mx it rs cs] have a1: "at_boundary ?m s1"
    by (auto simp: CreateChunksDirectory_def prim_defs at_boundary_def chunks_inv_def
        pulled_append)
  have "chunks_inv ?m (snd (WriteSnapshotFn n ?s))"
    using d a1 chunks_inv_WriteSnapshotFn_loop [OF a1, of n]
    by (cases r1) (simp_all add: WriteSnapshotFn_def at_boundary_chunks_inv)
  then show ?thesis
    by (auto simp: snapshot_fn_def prim_defs chunks_inv_def pulled_append
        split: prod.splits option.splits Status.splits)
qed

section \<open>Two chunks of a run\<close>

text \<open>
  The run of the scenario with a maximal chunk size of 500 bytes and three elements of an
  estimated size of 300 bytes each, with no failure and no cancellation.
\<close>

definition scenario_B :: SnapshotStreamWriter where
  "scenario_B =
     new_SnapshotStreamWriter
       [Element (Tensors 1 300), Element (Tensors 2 300), Element (Tensors 3 300), EndOfSequence]
       (Some 500) [] []"

text \<open>The events on the chunk file \<open>f\<close>.\<close>

fun on_chunk :: "chunk_file \<Rightarrow> event \<Rightarrow> bool" where
  "on_chunk f (EvInitialize g r) = (f = g)"
| "on_chunk f (EvWriteTensors g e r) = (f = g)"
| "on_chunk f (EvClose g r) = (f = g)"
| "on_chunk f (EvCleanup g r) = (f = g)"
| "on_chunk f (EvRename g r) = (f = g)"
| "on_chunk f e = False"

text \<open>
  C5: with a maximal chunk size of 500 and elements of sizes 300, 300, 300 followed by the
  end of the sequence, the thread ends after it has committed exactly two chunks,
  \<^verbatim>\<open>chunk_0\<close> with the first two elements and \<^verbatim>\<open>chunk_1\<close> with the third; nothing is
  left in the uncommitted directory and \<^verbatim>\<open>Wait\<close> returns ok.
\<close>

theorem scenario_B_two_chunks:
  "fst (snapshot_fn 3 scenario_B) \<and>
   committed_chunks (snd (snapshot_fn 3 scenario_B)) =
     [(0, [Tensors 1 300, Tensors 2 300]), (1, [Tensors 3 300])] \<and>
   uncommitted_chunks (snd (snapshot_fn 3 scenario_B)) 0 = None \<and>
   uncommitted_chunks (snd (snapshot_fn 3 scenario_B)) 1 = None \<and>
   fst (Wait (snd (snapshot_fn 3 scenario_B))) = OkStatus"
  unfolding scenario_B_def by code_simp

text \<open>
  C2: a chunk is opened, then closed, then committed. In the run above \<^verbatim>\<open>chunk_0\<close> is
  left by rotation, and the events on it are: initialised, written twice, renamed into the
  committed directory, and only then closed, by the cleanup object. The record writer is
  open when the file is committed. \<^verbatim>\<open>chunk_1\<close> is left at the end of the sequence: it is
  closed by \<^verbatim>\<open>WriteRecord\<close>, then renamed, and then the cleanup object calls \<^verbatim>\<open>Close\<close> once
  more.
\<close>

theorem scenario_B_chunk_0_renamed_before_closed:
  "filter (on_chunk 0) (trace (snd (snapshot_fn 3 scenario_B))) =
     [EvInitialize 0 OkStatus,
      EvWriteTensors 0 (Tensors 1 300) OkStatus,
      EvWriteTensors 0 (Tensors 2 300) OkStatus,
      EvRename 0 OkStatus,
      EvCleanup 0 OkStatus] \<and>
   filter (on_chunk 1) (trace (snd (snapshot_fn 3 scenario_B))) =
     [EvInitialize 1 OkStatus,
      EvWriteTensors 1 (Tensors 3 300) OkStatus,
      EvClose 1 OkStatus,
      EvRename 1 OkStatus,
      EvCleanup 1 OkStatus]"
  unfolding scenario_B_def by code_simp

section \<open>Order of the commits\<close>

text \<open>
  C9: in every state of every run, the chunk files of the committed directory are, in the
  order of their commits, \<^verbatim>\<open>chunk_0\<close>, \<^verbatim>\<open>chunk_1\<close>, ... up to the number of committed chunks,
  with no gap and no repetition, and their records, one chunk after the other, are the
  elements that the iterator gave, in the order in which it gave them.
\<close>

theorem commits_in_order:
  "map fst (committed_chunks (snd (snapshot_fn n (new_SnapshotStreamWriter it mx rs cs)))) =
     map int
       [0..<length (committed_chunks (snd (snapshot_fn n (new_SnapshotStreamWriter it mx rs cs))))] \<and>
   prefix
     (concat (map snd
       (committed_chunks (snd (snapshot_fn n (new_SnapshotStreamWriter it mx rs cs))))))
     (pulled (trace (snd (snapshot_fn n (new_SnapshotStreamWriter it mx rs cs)))))"
  using chunks_inv_snapshot_fn [of mx n it rs cs] by (simp add: chunks_inv_def)

section \<open>The status cell\<close>

text \<open>A status that is not ok stays not ok, whatever the writer does.\<close>

lemma not_ok_Cancelled: "\<not> ok (errors_Cancelled m)"
  by (simp add: errors_Cancelled_def)

lemma terminal_ShouldWriteChunk: "\<not> ok (status s) \<Longrightarrow> \<not> ok (status (snd (ShouldWriteChunk s)))"
  by (simp add: ShouldWriteChunk_def mutex_lock_def mutex_unlock_def not_ok_Cancelled Let_def)

lemma terminal_ShouldWriteRecord: "\<not> ok (status s) \<Longrightarrow> \<not> ok (status (snd (ShouldWriteRecord s)))"
  by (simp add: ShouldWriteRecord_def mutex_lock_def mutex_unlock_def not_ok_Cancelled Let_def)

lemma terminal_get_status:
  "\<not> ok (status s) \<Longrightarrow> \<not> ok (fst (get_status s)) \<and> \<not> ok (status (snd (get_status s)))"
  by (simp add: get_status_def mutex_lock_def mutex_unlock_def not_ok_Cancelled Let_def)

lemma terminal_GetChunkFilePath: "\<not> ok (status s) \<Longrightarrow> \<not> ok (status (snd (GetChunkFilePath s)))"
  by (simp add: GetChunkFilePath_def mutex_lock_def mutex_unlock_def not_ok_Cancelled Let_def)

lemma terminal_WriteRecord: "\<not> ok (status s) \<Longrightarrow> \<not> ok (status (snd (WriteRecord w s)))"
  by (auto simp: WriteRecord_def prim_defs not_ok_Cancelled
      split: list.splits next_result.splits Status.splits)

lemma terminal_CommitChunk: "\<not> ok (status s) \<Longrightarrow> \<not> ok (status (snd (CommitChunk f s)))"
  by (auto simp: CommitChunk_def prim_defs not_ok_Cancelled
      split: option.splits list.splits Status.splits)

lemma terminal_WriteChunk_loop: "\<not> ok (status s) \<Longrightarrow> \<not> ok (status (snd (WriteChunk_loop w s)))"
proof (induction w s rule: WriteChunk_loop.induct)
  case (1 writer s)
  obtain b s1 where g: "ShouldWriteRecord s = (b, s1)" by (cases "ShouldWriteRecord s")
  with terminal_ShouldWriteRecord [OF "1.prems"] have t1: "\<not> ok (status s1)" by simp
  obtain r2 s2 where w: "WriteRecord writer s1 = (r2, s2)" by (cases "WriteRecord writer s1")
  with terminal_WriteRecord [OF t1, of writer] have t2: "\<not> ok (status s2)" by simp
  show ?case
  proof (cases "b \<and> r2 = OkStatus")
    case True
    then have "b = True" "r2 = OkStatus" by simp_all
    from "1.IH" [OF g [symmetric] this(1) w [symmetric] this(2) t2] g w True
    show ?thesis by (simp add: WriteChunk_loop.simps [of writer s])
  next
    case False
    with g w t1 t2 show ?thesis
      by (cases b; cases r2) (simp_all add: WriteChunk_loop.simps [of writer s])
  qed
qed

lemma terminal_WriteChunk: "\<not> ok (status s) \<Longrightarrow> \<not> ok (status (snd (WriteChunk s)))"
proof -
  assume t: "\<not> ok (status s)"
  obtain f s1 where p: "GetChunkFilePath s = (f, s1)" by (cases "GetChunkFilePath s")
  with terminal_GetChunkFilePath [OF t] have t1: "\<not> ok (status s1)" by simp
  obtain r2 s2 where i: "Initialize f s1 = (r2, s2)" by (cases "Initialize f s1")
  with t1 have t2: "\<not> ok (status s2)" by (auto simp: Initialize_def Let_def)
  obtain r3 s3 where l: "WriteChunk_loop f s2 = (r3, s3)" by (cases "WriteChunk_loop f s2")
  with terminal_WriteChunk_loop [OF t2, of f] have t3: "\<not> ok (status s3)" by simp
  obtain r4 s4 where c: "CommitChunk f s3 = (r4, s4)" by (cases "CommitChunk f s3")
  with terminal_CommitChunk [OF t3, of f] have t4: "\<not> ok (status s4)" by simp
  show ?thesis using p i l c t2 t3 t4
    by (cases r2; cases r3) (simp_all add: WriteChunk_def cleanup_def)
qed

lemma terminal_WriteSnapshotFn_loop:
  "\<not> ok (status s) \<Longrightarrow> \<not> ok (status (snd (WriteSnapshotFn_loop n s)))"
proof (induction n arbitrary: s)
  case 0
  then show ?case by simp
next
  case (Suc n)
  obtain b s1 where g: "ShouldWriteChunk s = (b, s1)" by (cases "ShouldWriteChunk s")
  with terminal_ShouldWriteChunk [OF Suc.prems] have t1: "\<not> ok (status s1)" by simp
  obtain r2 s2 where w: "WriteChunk s1 = (r2, s2)" by (cases "WriteChunk s1")
  with terminal_WriteChunk [OF t1] have t2: "\<not> ok (status s2)" by simp
  obtain r3 s3 where e: "get_status s1 = (r3, s3)" by (cases "get_status s1")
  with terminal_get_status [OF t1] have t3: "\<not> ok (status s3)" by simp
  show ?case using g w e t2 t3 Suc.IH [OF t2] by (cases b; cases r2) simp_all
qed

lemma terminal_snapshot_fn: "\<not> ok (status s) \<Longrightarrow> \<not> ok (status (snd (snapshot_fn n s)))"
proof -
  assume t: "\<not> ok (status s)"
  obtain r1 s1 where d: "CreateChunksDirectory s = (r1, s1)" by (cases "CreateChunksDirectory s")
  with t have t1: "\<not> ok (status s1)"
    by (auto simp: CreateChunksDirectory_def RecursivelyCreateDir_def Let_def)
  obtain r2 s2 where w: "WriteSnapshotFn n s = (r2, s2)" by (cases "WriteSnapshotFn n s")
  have t2: "\<not> ok (status s2)"
    using d w t1 terminal_WriteSnapshotFn_loop [OF t1, of n]
    by (cases r1) (auto simp: WriteSnapshotFn_def)
  show ?thesis
  proof (cases r2)
    case None
    with w t2 show ?thesis by (simp add: snapshot_fn_def)
  next
    case (Some r)
    with w t2 show ?thesis
      by (cases r) (simp_all add: snapshot_fn_def mutex_lock_def mutex_unlock_def Let_def)
  qed
qed

text \<open>
  Two writers: one whose iterator fails at the first call, and one for which the
  uncommitted directory cannot be created.
\<close>

definition read_failure :: SnapshotStreamWriter where
  "read_failure = new_SnapshotStreamWriter [Failed DATA_LOSS ''read''] (Some 500) [] []"

definition mkdir_failure :: SnapshotStreamWriter where
  "mkdir_failure =
     new_SnapshotStreamWriter [] (Some 500) [Error PERMISSION_DENIED ''mkdir''] []"

text \<open>
  The first status that is not ok can be overwritten. The thread of the first writer ends
  with the error of the iterator in the status cell; a \<^verbatim>\<open>Cancel\<close> after that replaces it,
  and \<^verbatim>\<open>Wait\<close> returns the cancellation. The second writer is cancelled before its thread
  runs; the thread then replaces the cancellation by the error of the file system.
\<close>

theorem first_status_overwritten:
  "status (snd (snapshot_fn 1 read_failure)) = Error DATA_LOSS ''read'' \<and>
   fst (Wait (Cancel (snd (snapshot_fn 1 read_failure)))) = errors_Cancelled kCancelledMessage \<and>
   errors_Cancelled kCancelledMessage \<noteq> Error DATA_LOSS ''read'' \<and>
   status (Cancel mkdir_failure) = errors_Cancelled kCancelledMessage \<and>
   status (snd (snapshot_fn 1 (Cancel mkdir_failure))) = Error PERMISSION_DENIED ''mkdir''"
proof -
  have 1: "status (snd (snapshot_fn 1 read_failure)) = Error DATA_LOSS ''read''"
    unfolding read_failure_def by code_simp
  have 2: "fst (Wait (Cancel s)) = errors_Cancelled kCancelledMessage" if "cancels s = []" for s
    using that
    by (simp add: Wait_def Cancel_def mutex_lock_def mutex_unlock_def Let_def cancel_pending_def)
  have 3: "cancels (snd (snapshot_fn 1 read_failure)) = []"
    unfolding read_failure_def by code_simp
  have 4: "status (Cancel mkdir_failure) = errors_Cancelled kCancelledMessage"
    by (simp add: Cancel_def mutex_lock_def mutex_unlock_def Let_def)
  have 5: "status (snd (snapshot_fn 1 (Cancel mkdir_failure))) = Error PERMISSION_DENIED ''mkdir''"
    unfolding mkdir_failure_def by code_simp
  show ?thesis using 1 2 [OF 3] 4 5 by (simp add: errors_Cancelled_def)
qed

text \<open>
  C1, as the code has it: the status cell holds the status written last. \<^verbatim>\<open>Cancel\<close> sets
  the cancellation error whatever the cell holds; the background thread stores the error
  that \<^verbatim>\<open>WriteSnapshotFn\<close> returns whatever the cell holds; \<^verbatim>\<open>Wait\<close> and \<^verbatim>\<open>status\<close> return
  what the cell holds when they get the mutex. A status that is not ok is never followed
  by ok.
\<close>

theorem last_write_wins:
  "status (Cancel s) = errors_Cancelled kCancelledMessage \<and>
   (fst (WriteSnapshotFn n s) = Some (Error c m) \<longrightarrow> status (snd (snapshot_fn n s)) = Error c m) \<and>
   fst (Wait s) = (if cancel_pending s then errors_Cancelled kCancelledMessage else status s) \<and>
   fst (get_status s) = (if cancel_pending s then errors_Cancelled kCancelledMessage else status s) \<and>
   (\<not> ok (status s) \<longrightarrow>
      \<not> ok (status (Cancel s)) \<and> \<not> ok (status (snd (snapshot_fn n s))) \<and>
      \<not> ok (fst (Wait s)) \<and> \<not> ok (fst (get_status s)))"
proof -
  have 1: "status (Cancel s) = errors_Cancelled kCancelledMessage"
    by (simp add: Cancel_def mutex_lock_def mutex_unlock_def Let_def)
  have 2: "status (snd (snapshot_fn n s)) = Error c m"
    if "fst (WriteSnapshotFn n s) = Some (Error c m)"
    using that by (cases "WriteSnapshotFn n s")
      (simp add: snapshot_fn_def mutex_lock_def mutex_unlock_def Let_def)
  have 3: "fst (Wait s) = (if cancel_pending s then errors_Cancelled kCancelledMessage else status s)"
    "fst (get_status s) = (if cancel_pending s then errors_Cancelled kCancelledMessage else status s)"
    by (simp_all add: Wait_def get_status_def mutex_lock_def mutex_unlock_def Let_def)
  show ?thesis using 1 2 3 not_ok_Cancelled [of kCancelledMessage] terminal_snapshot_fn [of s n]
    by simp
qed

theorem last_write_wins_witness:
  "fst (WriteSnapshotFn 1 (Cancel mkdir_failure)) = Some (Error PERMISSION_DENIED ''mkdir'') \<and>
   \<not> ok (status (Cancel mkdir_failure)) \<and>
   status (snd (snapshot_fn 1 (Cancel mkdir_failure))) = Error PERMISSION_DENIED ''mkdir'' \<and>
   \<not> ok (fst (Wait (Cancel mkdir_failure)))"
proof -
  have 1: "fst (WriteSnapshotFn 1 (Cancel mkdir_failure)) = Some (Error PERMISSION_DENIED ''mkdir'')"
    unfolding mkdir_failure_def by code_simp
  have 2: "\<not> ok (status (Cancel mkdir_failure))"
    by (simp add: Cancel_def mutex_lock_def mutex_unlock_def Let_def not_ok_Cancelled)
  show ?thesis
    using 1 2 last_write_wins [of "Cancel mkdir_failure" 1 PERMISSION_DENIED "''mkdir''"]
    by (simp add: not_ok_Cancelled)
qed

section \<open>Rules for the loops\<close>

text \<open>
  A property of the states of a run is shown once for each step of the writer and then
  holds along the loops: \<open>I\<close> between two chunks, \<open>J f\<close> while the chunk file \<open>f\<close> is
  filled, and \<open>E r\<close> after a step has failed with the status \<open>r\<close>.
\<close>

lemma WriteChunk_loop_rule:
  assumes rec: "\<And>f s s1 r s2. J f s \<Longrightarrow> ShouldWriteRecord s = (True, s1) \<Longrightarrow>
            WriteRecord f s1 = (r, s2) \<Longrightarrow> (if ok r then J f s2 else E r s2)"
    and stop: "\<And>f s s1. J f s \<Longrightarrow> ShouldWriteRecord s = (False, s1) \<Longrightarrow> J f s1"
  shows "J f s \<Longrightarrow> WriteChunk_loop f s = (r, s') \<Longrightarrow> (if ok r then J f s' else E r s')"
proof (induction f s arbitrary: r s' rule: WriteChunk_loop.induct)
  case (1 writer s)
  note J = "1.prems"(1) and run = "1.prems"(2)
  obtain b s1 where g: "ShouldWriteRecord s = (b, s1)" by (cases "ShouldWriteRecord s")
  show ?case
  proof (cases b)
    case False
    with g run have "r = OkStatus" "s' = s1"
      by (simp_all add: WriteChunk_loop.simps [of writer s])
    with stop [OF J] g False show ?thesis by simp
  next
    case True
    obtain r2 s2 where w: "WriteRecord writer s1 = (r2, s2)" by (cases "WriteRecord writer s1")
    from rec [OF J] g True w have post: "if ok r2 then J writer s2 else E r2 s2" by simp
    show ?thesis
    proof (cases r2)
      case OkStatus
      with g True w run have "WriteChunk_loop writer s2 = (r, s')"
        by (simp add: WriteChunk_loop.simps [of writer s])
      moreover have "b = True" using True by simp
      moreover have "J writer s2" using post OkStatus by simp
      ultimately show ?thesis
        using "1.IH" [OF g [symmetric] _ w [symmetric] OkStatus] by blast
    next
      case (Error c m)
      with g True w run have "r = Error c m" "s' = s2"
        by (simp_all add: WriteChunk_loop.simps [of writer s])
      with post Error show ?thesis by simp
    qed
  qed
qed

lemma WriteChunk_rule:
  assumes init: "\<And>s f s1 r s2. P s \<Longrightarrow> GetChunkFilePath s = (f, s1) \<Longrightarrow>
            Initialize f s1 = (r, s2) \<Longrightarrow> (if ok r then J f s2 else E r s2)"
    and rec: "\<And>f s s1 r s2. J f s \<Longrightarrow> ShouldWriteRecord s = (True, s1) \<Longrightarrow>
            WriteRecord f s1 = (r, s2) \<Longrightarrow> (if ok r then J f s2 else E r s2)"
    and stop: "\<And>f s s1. J f s \<Longrightarrow> ShouldWriteRecord s = (False, s1) \<Longrightarrow> J f s1"
    and commit: "\<And>f s r s1. J f s \<Longrightarrow> CommitChunk f s = (r, s1) \<Longrightarrow>
            (if ok r then I (cleanup f s1) else E r (cleanup f s1))"
    and clean: "\<And>f r s. E r s \<Longrightarrow> E r (cleanup f s)"
    and P: "P s" and run: "WriteChunk s = (r, s')"
  shows "if ok r then I s' else E r s'"
proof -
  obtain f s1 where p: "GetChunkFilePath s = (f, s1)" by (cases "GetChunkFilePath s")
  obtain r2 s2 where i: "Initialize f s1 = (r2, s2)" by (cases "Initialize f s1")
  from init [OF P p i] have post2: "if ok r2 then J f s2 else E r2 s2" .
  show ?thesis
  proof (cases r2)
    case (Error c m)
    with p i run post2 show ?thesis by (auto simp: WriteChunk_def)
  next
    case OkStatus
    with post2 have J2: "J f s2" by simp
    obtain r3 s3 where l: "WriteChunk_loop f s2 = (r3, s3)" by (cases "WriteChunk_loop f s2")
    have post3: "if ok r3 then J f s3 else E r3 s3"
      using WriteChunk_loop_rule [where J = J and E = E, OF rec stop J2 l] .
    show ?thesis
    proof (cases r3)
      case (Error c m)
      with p i l run OkStatus post3 clean [of r3 s3 f] show ?thesis
        by (auto simp: WriteChunk_def)
    next
      case ok3: OkStatus
      obtain r4 s4 where c: "CommitChunk f s3 = (r4, s4)" by (cases "CommitChunk f s3")
      from post3 ok3 have "J f s3" by simp
      from commit [OF this c] p i l c run OkStatus ok3 show ?thesis
        by (auto simp: WriteChunk_def)
    qed
  qed
qed

lemma WriteSnapshotFn_loop_guarded_rule:
  assumes guard: "\<And>s b s1. I s \<Longrightarrow> ShouldWriteChunk s = (b, s1) \<Longrightarrow> (if b then P s1 else I s1)"
    and init: "\<And>s f s1 r s2. P s \<Longrightarrow> GetChunkFilePath s = (f, s1) \<Longrightarrow>
            Initialize f s1 = (r, s2) \<Longrightarrow> (if ok r then J f s2 else E r s2)"
    and rec: "\<And>f s s1 r s2. J f s \<Longrightarrow> ShouldWriteRecord s = (True, s1) \<Longrightarrow>
            WriteRecord f s1 = (r, s2) \<Longrightarrow> (if ok r then J f s2 else E r s2)"
    and stop: "\<And>f s s1. J f s \<Longrightarrow> ShouldWriteRecord s = (False, s1) \<Longrightarrow> J f s1"
    and commit: "\<And>f s r s1. J f s \<Longrightarrow> CommitChunk f s = (r, s1) \<Longrightarrow>
            (if ok r then I (cleanup f s1) else E r (cleanup f s1))"
    and clean: "\<And>f r s. E r s \<Longrightarrow> E r (cleanup f s)"
  shows "I s \<Longrightarrow> WriteSnapshotFn_loop n s = (res, s') \<Longrightarrow>
     (case res of
        None \<Rightarrow> I s'
      | Some r \<Rightarrow>
          (\<exists>s0 s1. I s0 \<and> ShouldWriteChunk s0 = (False, s1) \<and> I s1 \<and> get_status s1 = (r, s')) \<or>
          (\<not> ok r \<and> E r s'))"
proof (induction n arbitrary: s)
  case 0
  then show ?case by auto
next
  case (Suc n)
  obtain b s1 where g: "ShouldWriteChunk s = (b, s1)" by (cases "ShouldWriteChunk s")
  from guard [OF Suc.prems(1) g] have post1: "if b then P s1 else I s1" .
  show ?case
  proof (cases b)
    case False
    with g Suc.prems post1 show ?thesis by (auto split: prod.splits)
  next
    case True
    with post1 have P1: "P s1" by simp
    obtain r2 s2 where w: "WriteChunk s1 = (r2, s2)" by (cases "WriteChunk s1")
    have post: "if ok r2 then I s2 else E r2 s2"
      using WriteChunk_rule [where P = P and I = I and J = J and E = E,
          OF init rec stop commit clean P1 w] .
    show ?thesis
    proof (cases r2)
      case OkStatus
      with g True w Suc.prems(2) have "WriteSnapshotFn_loop n s2 = (res, s')" by simp
      moreover from post OkStatus have "I s2" by simp
      ultimately show ?thesis by (rule Suc.IH [rotated])
    next
      case (Error c m)
      with g True w Suc.prems(2) post show ?thesis by auto
    qed
  qed
qed

lemma WriteSnapshotFn_loop_rule:
  assumes guard: "\<And>s b s1. I s \<Longrightarrow> ShouldWriteChunk s = (b, s1) \<Longrightarrow> I s1"
    and init: "\<And>s f s1 r s2. I s \<Longrightarrow> GetChunkFilePath s = (f, s1) \<Longrightarrow>
            Initialize f s1 = (r, s2) \<Longrightarrow> (if ok r then J f s2 else E r s2)"
    and rec: "\<And>f s s1 r s2. J f s \<Longrightarrow> ShouldWriteRecord s = (True, s1) \<Longrightarrow>
            WriteRecord f s1 = (r, s2) \<Longrightarrow> (if ok r then J f s2 else E r s2)"
    and stop: "\<And>f s s1. J f s \<Longrightarrow> ShouldWriteRecord s = (False, s1) \<Longrightarrow> J f s1"
    and commit: "\<And>f s r s1. J f s \<Longrightarrow> CommitChunk f s = (r, s1) \<Longrightarrow>
            (if ok r then I (cleanup f s1) else E r (cleanup f s1))"
    and clean: "\<And>f r s. E r s \<Longrightarrow> E r (cleanup f s)"
    and I: "I s" and run: "WriteSnapshotFn_loop n s = (res, s')"
  shows "case res of
        None \<Rightarrow> I s'
      | Some r \<Rightarrow> (\<exists>s1. I s1 \<and> get_status s1 = (r, s')) \<or> (\<not> ok r \<and> E r s')"
proof -
  have "case res of
        None \<Rightarrow> I s'
      | Some r \<Rightarrow>
          (\<exists>s0 s1. I s0 \<and> ShouldWriteChunk s0 = (False, s1) \<and> I s1 \<and> get_status s1 = (r, s')) \<or>
          (\<not> ok r \<and> E r s')"
  proof (rule WriteSnapshotFn_loop_guarded_rule [where I = I and P = I and J = J and E = E])
    show "if b then I s1 else I s1" if "I s" "ShouldWriteChunk s = (b, s1)" for s b s1
      using guard [OF that] by simp
  qed (fact init rec stop commit clean I run)+
  then show ?thesis by (cases res) auto
qed

section \<open>The soft cap\<close>




























section \<open>The mutex and the calls made under it\<close>

text \<open>
  Whether the mutex is held after a list of events, when \<open>h\<close> says whether it was held
  before; whether a call to the iterator, the record writer or the file system is made
  while the mutex is held; and the discipline that the writer keeps: the mutex is acquired
  only when it is free and released only when it is held, the iterator is called with the
  mutex held, the record writer and the file system are called with the mutex free.
\<close>

fun held_after :: "bool \<Rightarrow> event list \<Rightarrow> bool" where
  "held_after h [] = h"
| "held_after h (EvLock # t) = held_after True t"
| "held_after h (EvUnlock # t) = held_after False t"
| "held_after h (ev # t) = held_after h t"

fun io_under_lock :: "bool \<Rightarrow> event list \<Rightarrow> bool" where
  "io_under_lock h [] = False"
| "io_under_lock h (EvLock # t) = io_under_lock True t"
| "io_under_lock h (EvUnlock # t) = io_under_lock False t"
| "io_under_lock h (ev # t) = (h \<or> io_under_lock h t)"

fun lock_discipline :: "bool \<Rightarrow> event list \<Rightarrow> bool" where
  "lock_discipline h [] = True"
| "lock_discipline h (EvLock # t) = (\<not> h \<and> lock_discipline True t)"
| "lock_discipline h (EvUnlock # t) = (h \<and> lock_discipline False t)"
| "lock_discipline h (EvGetNext r # t) = (h \<and> lock_discipline h t)"
| "lock_discipline h (ev # t) = (\<not> h \<and> lock_discipline h t)"

definition released :: "SnapshotStreamWriter \<Rightarrow> bool" where
  "released s \<longleftrightarrow> lock_discipline False (trace s) \<and> \<not> held_after False (trace s)"

lemma held_after_append: "held_after h (a @ b) = held_after (held_after h a) b"
  by (induction h a rule: held_after.induct) auto

lemma lock_discipline_append:
  "lock_discipline h (a @ b) \<longleftrightarrow> lock_discipline h a \<and> lock_discipline (held_after h a) b"
  by (induction h a rule: lock_discipline.induct) auto

lemmas released_simps = released_def held_after_append lock_discipline_append

lemma released_ShouldWriteChunk: "released s \<Longrightarrow> ShouldWriteChunk s = (b, s1) \<Longrightarrow> released s1"
  by (auto simp: ShouldWriteChunk_def prim_defs released_simps)

lemma released_ShouldWriteRecord: "released s \<Longrightarrow> ShouldWriteRecord s = (b, s1) \<Longrightarrow> released s1"
  by (auto simp: ShouldWriteRecord_def prim_defs released_simps)

lemma released_Initialize:
  "released s \<Longrightarrow> GetChunkFilePath s = (f, s1) \<Longrightarrow> Initialize f s1 = (r, s2) \<Longrightarrow> released s2"
  by (auto simp: GetChunkFilePath_def prim_defs released_simps)

lemma released_WriteRecord: "released s \<Longrightarrow> WriteRecord f s = (r, s1) \<Longrightarrow> released s1"
  by (auto simp: WriteRecord_def prim_defs released_simps
      split: list.splits next_result.splits Status.splits)

lemma released_cleanup: "released s \<Longrightarrow> released (cleanup f s)"
  by (simp add: prim_defs released_simps)

lemma released_CommitChunk: "released s \<Longrightarrow> CommitChunk f s = (r, s1) \<Longrightarrow> released s1"
  by (auto simp: CommitChunk_def prim_defs released_simps
      split: option.splits list.splits Status.splits if_splits)

lemma released_get_status: "released s \<Longrightarrow> get_status s = (r, s1) \<Longrightarrow> released s1"
  by (auto simp: get_status_def prim_defs released_simps)

lemma released_WriteSnapshotFn_loop:
  assumes "released s"
  shows "released (snd (WriteSnapshotFn_loop n s))"
proof -
  obtain res s' where run: "WriteSnapshotFn_loop n s = (res, s')"
    by (cases "WriteSnapshotFn_loop n s")
  have "case res of None \<Rightarrow> released s'
        | Some r \<Rightarrow> (\<exists>s1. released s1 \<and> get_status s1 = (r, s')) \<or> (\<not> ok r \<and> released s')"
    by (rule WriteSnapshotFn_loop_rule
          [where I = released and J = "\<lambda>f. released" and E = "\<lambda>r. released",
            OF _ _ _ _ _ _ assms run])
       (auto intro: released_ShouldWriteChunk released_ShouldWriteRecord released_Initialize
          released_WriteRecord released_cleanup released_CommitChunk)
  with run show ?thesis
    by (auto split: option.splits intro: released_get_status)
qed

lemma released_snapshot_fn:
  "released (snd (snapshot_fn n (new_SnapshotStreamWriter it mx rs cs)))"
proof -
  let ?s = "new_SnapshotStreamWriter it mx rs cs"
  obtain r1 s1 where d: "CreateChunksDirectory ?s = (r1, s1)" by (cases "CreateChunksDirectory ?s")
  then have a1: "released s1"
    by (auto simp: new_SnapshotStreamWriter_def CreateChunksDirectory_def prim_defs released_simps)
  have "released (snd (WriteSnapshotFn n ?s))"
    using d a1 released_WriteSnapshotFn_loop [OF a1, of n]
    by (cases r1) (simp_all add: WriteSnapshotFn_def)
  then show ?thesis
    by (auto simp: snapshot_fn_def prim_defs released_simps
        split: prod.splits option.splits Status.splits)
qed

text \<open>
  The mutex is held across a call that blocks: in the run of the writer whose iterator
  fails at the first call, \<^verbatim>\<open>GetNext\<close> is called while the mutex is held.
\<close>

theorem GetNext_under_lock:
  "io_under_lock False (trace (snd (snapshot_fn 1 read_failure)))"
  unfolding read_failure_def by code_simp

text \<open>
  C3, as the code has it: in every run of the background thread, for every iterator, every
  failure and every interleaving with \<^verbatim>\<open>Cancel\<close>, no call to the file system or to the
  record writer is made while the mutex is held, and the mutex is free when the thread
  stops; the iterator's \<^verbatim>\<open>GetNext\<close> is called while the mutex is held.
\<close>

theorem file_operations_outside_lock:
  "lock_discipline False (trace (snd (snapshot_fn n (new_SnapshotStreamWriter it mx rs cs)))) \<and>
   \<not> held_after False (trace (snd (snapshot_fn n (new_SnapshotStreamWriter it mx rs cs))))"
  using released_snapshot_fn [of n it mx rs cs] by (simp add: released_def)

section \<open>The end of the sequence\<close>

text \<open>
  Whether the iterator has reported the end of the sequence in a list of events, when
  \<open>seen\<close> says whether it had before; and whether no call of \<^verbatim>\<open>GetNext\<close> comes after the
  iterator has reported the end.
\<close>

fun end_reported :: "bool \<Rightarrow> event list \<Rightarrow> bool" where
  "end_reported seen [] = seen"
| "end_reported seen (EvGetNext r # t) = end_reported (seen \<or> r = EndOfSequence) t"
| "end_reported seen (ev # t) = end_reported seen t"

fun no_pull_after_end :: "bool \<Rightarrow> event list \<Rightarrow> bool" where
  "no_pull_after_end seen [] = True"
| "no_pull_after_end seen (EvGetNext r # t) = (\<not> seen \<and> no_pull_after_end (r = EndOfSequence) t)"
| "no_pull_after_end seen (ev # t) = no_pull_after_end seen t"

definition eos_inv :: "SnapshotStreamWriter \<Rightarrow> bool" where
  "eos_inv s \<longleftrightarrow>
     no_pull_after_end False (trace s) \<and> end_of_sequence s = end_reported False (trace s)"

lemma end_reported_append: "end_reported seen (a @ b) = end_reported (end_reported seen a) b"
  by (induction seen a rule: end_reported.induct) auto

lemma no_pull_after_end_append:
  "no_pull_after_end seen (a @ b) \<longleftrightarrow>
     no_pull_after_end seen a \<and> no_pull_after_end (end_reported seen a) b"
  by (induction seen a rule: no_pull_after_end.induct) auto

lemmas eos_simps = eos_inv_def end_reported_append no_pull_after_end_append

lemma eos_ShouldWriteChunk: "eos_inv s \<Longrightarrow> ShouldWriteChunk s = (b, s1) \<Longrightarrow> eos_inv s1"
  by (auto simp: ShouldWriteChunk_def prim_defs eos_simps)

lemma eos_ShouldWriteRecord:
  "eos_inv s \<Longrightarrow> ShouldWriteRecord s = (b, s1) \<Longrightarrow> eos_inv s1 \<and> (b \<longrightarrow> \<not> end_of_sequence s1)"
  by (auto simp: ShouldWriteRecord_def prim_defs eos_simps)

lemma eos_Initialize:
  "eos_inv s \<Longrightarrow> GetChunkFilePath s = (f, s1) \<Longrightarrow> Initialize f s1 = (r, s2) \<Longrightarrow> eos_inv s2"
  by (auto simp: GetChunkFilePath_def prim_defs eos_simps)

lemma eos_WriteRecord:
  "eos_inv s \<Longrightarrow> \<not> end_of_sequence s \<Longrightarrow> WriteRecord f s = (r, s1) \<Longrightarrow> eos_inv s1"
  by (auto simp: WriteRecord_def prim_defs eos_simps
      split: list.splits next_result.splits Status.splits)

lemma eos_cleanup: "eos_inv s \<Longrightarrow> eos_inv (cleanup f s)"
  by (simp add: prim_defs eos_simps)

lemma eos_CommitChunk: "eos_inv s \<Longrightarrow> CommitChunk f s = (r, s1) \<Longrightarrow> eos_inv s1"
  by (auto simp: CommitChunk_def prim_defs eos_simps
      split: option.splits list.splits Status.splits if_splits)

lemma eos_get_status: "eos_inv s \<Longrightarrow> get_status s = (r, s1) \<Longrightarrow> eos_inv s1"
  by (auto simp: get_status_def prim_defs eos_simps)

lemma eos_WriteSnapshotFn_loop:
  assumes "eos_inv s"
  shows "eos_inv (snd (WriteSnapshotFn_loop n s))"
proof -
  obtain res s' where run: "WriteSnapshotFn_loop n s = (res, s')"
    by (cases "WriteSnapshotFn_loop n s")
  have "case res of None \<Rightarrow> eos_inv s'
        | Some r \<Rightarrow> (\<exists>s1. eos_inv s1 \<and> get_status s1 = (r, s')) \<or> (\<not> ok r \<and> eos_inv s')"
  proof (rule WriteSnapshotFn_loop_rule
          [where I = eos_inv and J = "\<lambda>f. eos_inv" and E = "\<lambda>r. eos_inv",
            OF _ _ _ _ _ _ assms run])
    fix f s s1 r s2
    assume "eos_inv s" "ShouldWriteRecord s = (True, s1)" "WriteRecord f s1 = (r, s2)"
    then show "if ok r then eos_inv s2 else eos_inv s2"
      using eos_ShouldWriteRecord [of s True s1] eos_WriteRecord [of s1 f r s2] by simp
  qed (auto intro: eos_ShouldWriteChunk eos_Initialize eos_cleanup eos_CommitChunk
        dest: eos_ShouldWriteRecord)
  with run show ?thesis
    by (auto split: option.splits intro: eos_get_status)
qed

lemma eos_snapshot_fn:
  "eos_inv (snd (snapshot_fn n (new_SnapshotStreamWriter it mx rs cs)))"
proof -
  let ?s = "new_SnapshotStreamWriter it mx rs cs"
  obtain r1 s1 where d: "CreateChunksDirectory ?s = (r1, s1)" by (cases "CreateChunksDirectory ?s")
  then have a1: "eos_inv s1"
    by (auto simp: new_SnapshotStreamWriter_def CreateChunksDirectory_def prim_defs eos_simps)
  have "eos_inv (snd (WriteSnapshotFn n ?s))"
    using d a1 eos_WriteSnapshotFn_loop [OF a1, of n]
    by (cases r1) (simp_all add: WriteSnapshotFn_def)
  then show ?thesis
    by (auto simp: snapshot_fn_def prim_defs eos_simps
        split: prod.splits option.splits Status.splits)
qed

lemma ShouldWriteRecord_at_end:
  "end_of_sequence s \<Longrightarrow> ShouldWriteRecord s = (False, mutex_unlock (mutex_lock s))"
  by (simp add: ShouldWriteRecord_def prim_defs)

lemma ShouldWriteChunk_at_end:
  "end_of_sequence s \<Longrightarrow> ShouldWriteChunk s = (False, mutex_unlock (mutex_lock s))"
  by (simp add: ShouldWriteChunk_def prim_defs)

text \<open>
  C10: in a state where \<open>end_of_sequence\<close> is true both loop guards are false, and the loop
  of \<^verbatim>\<open>WriteChunk\<close> and the loop of \<^verbatim>\<open>WriteSnapshotFn\<close> end without a call to the iterator
  and leave the flag true. In every run of the background thread, no call of \<^verbatim>\<open>GetNext\<close>
  follows the one that reported the end of the sequence, and the flag is true exactly when
  the iterator has reported the end.
\<close>

theorem end_of_sequence_final:
  "(end_of_sequence s \<longrightarrow>
      fst (ShouldWriteRecord s) = False \<and> fst (ShouldWriteChunk s) = False \<and>
      WriteChunk_loop writer s = (OkStatus, mutex_unlock (mutex_lock s)) \<and>
      WriteSnapshotFn_loop (Suc k) s =
        (Some (fst (get_status (mutex_unlock (mutex_lock s)))),
         snd (get_status (mutex_unlock (mutex_lock s)))) \<and>
      end_of_sequence (snd (WriteSnapshotFn_loop (Suc k) s)) \<and>
      iterator (snd (WriteSnapshotFn_loop (Suc k) s)) = iterator s) \<and>
   no_pull_after_end False (trace (snd (snapshot_fn n (new_SnapshotStreamWriter it mx rs cs)))) \<and>
   end_of_sequence (snd (snapshot_fn n (new_SnapshotStreamWriter it mx rs cs))) =
     end_reported False (trace (snd (snapshot_fn n (new_SnapshotStreamWriter it mx rs cs))))"
proof -
  have 1: "WriteChunk_loop writer s = (OkStatus, mutex_unlock (mutex_lock s))"
    if "end_of_sequence s"
    using ShouldWriteRecord_at_end [OF that] by (simp add: WriteChunk_loop.simps [of writer s])
  have 2: "WriteSnapshotFn_loop (Suc k) s =
        (Some (fst (get_status (mutex_unlock (mutex_lock s)))),
         snd (get_status (mutex_unlock (mutex_lock s))))"
    if "end_of_sequence s"
    using ShouldWriteChunk_at_end [OF that] by (simp add: split_beta)
  have 3: "end_of_sequence (snd (get_status (mutex_unlock (mutex_lock s)))) = end_of_sequence s"
    "iterator (snd (get_status (mutex_unlock (mutex_lock s)))) = iterator s"
    by (simp_all add: get_status_def prim_defs)
  show ?thesis
    using 1 2 3 ShouldWriteRecord_at_end [of s] ShouldWriteChunk_at_end [of s]
      eos_snapshot_fn [of n it mx rs cs]
    by (simp add: eos_inv_def)
qed

theorem end_of_sequence_final_witness:
  "end_of_sequence (snd (snapshot_fn 3 scenario_B)) \<and>
   WriteChunk_loop 1 (snd (snapshot_fn 3 scenario_B)) =
     (OkStatus, mutex_unlock (mutex_lock (snd (snapshot_fn 3 scenario_B)))) \<and>
   iterator (snd (WriteSnapshotFn_loop (Suc 0) (snd (snapshot_fn 3 scenario_B)))) =
     iterator (snd (snapshot_fn 3 scenario_B))"
proof -
  have 1: "end_of_sequence (snd (snapshot_fn 3 scenario_B))"
    unfolding scenario_B_def by code_simp
  show ?thesis
    using 1 end_of_sequence_final [of "snd (snapshot_fn 3 scenario_B)" 1 0] by blast
qed

section \<open>Failures\<close>

text \<open>
  The status of a call whose failure the writer looks at (the status of the cleanup's
  \<^verbatim>\<open>Close\<close> is ignored, so it counts as ok), and the failures of a list of events.
\<close>

fun failure :: "event \<Rightarrow> Status" where
  "failure (EvCreateDir r) = r"
| "failure (EvInitialize f r) = r"
| "failure (EvGetNext (Failed c m)) = Error c m"
| "failure (EvWriteTensors f e r) = r"
| "failure (EvClose f r) = r"
| "failure (EvRename f r) = r"
| "failure ev = OkStatus"

definition failures :: "event list \<Rightarrow> Status list" where
  "failures tr = filter (\<lambda>r. \<not> ok r) (map failure tr)"

text \<open>
  After a failure the thread only unwinds: it acquires and releases the mutex and the
  cleanup object closes the record writer; it makes no other call.
\<close>

fun unwinding :: "event \<Rightarrow> bool" where
  "unwinding EvLock = True"
| "unwinding EvUnlock = True"
| "unwinding (EvCleanup f r) = True"
| "unwinding ev = False"

fun stops_at_failure :: "event list \<Rightarrow> bool" where
  "stops_at_failure [] = True"
| "stops_at_failure (ev # t) =
     (if ok (failure ev) then stops_at_failure t else list_all unwinding t)"

text \<open>
  The chunk file on which a write, a close or a rename has failed. Such a chunk is
  abandoned: its file is in the uncommitted directory and not in the committed one.
\<close>

fun failed_chunk :: "event \<Rightarrow> chunk_file option" where
  "failed_chunk (EvWriteTensors f e (Error c m)) = Some f"
| "failed_chunk (EvClose f (Error c m)) = Some f"
| "failed_chunk (EvRename f (Error c m)) = Some f"
| "failed_chunk ev = None"

definition abandoned :: "SnapshotStreamWriter \<Rightarrow> bool" where
  "abandoned s \<longleftrightarrow>
     (\<forall>ev \<in> set (trace s). \<forall>f. failed_chunk ev = Some f \<longrightarrow>
        uncommitted_chunks s f \<noteq> None \<and> f \<notin> fst ` set (committed_chunks s))"

text \<open>
  The states of a run: between two chunks with no failure so far, filling the chunk file
  \<open>f\<close> with no failure so far, and after the failure \<open>r\<close>.
\<close>

definition running :: "int \<Rightarrow> SnapshotStreamWriter \<Rightarrow> bool" where
  "running m s \<longleftrightarrow> at_boundary m s \<and> failures (trace s) = []"

definition writing :: "int \<Rightarrow> chunk_file \<Rightarrow> SnapshotStreamWriter \<Rightarrow> bool" where
  "writing m f s \<longleftrightarrow> filling m f s \<and> failures (trace s) = []"

definition stopped :: "Status \<Rightarrow> SnapshotStreamWriter \<Rightarrow> bool" where
  "stopped r s \<longleftrightarrow> failures (trace s) = [r] \<and> stops_at_failure (trace s) \<and> abandoned s"

lemma failures_append: "failures (a @ b) = failures a @ failures b"
  by (simp add: failures_def)

lemma failures_Nil [simp]: "failures [] = []"
  by (simp add: failures_def)

lemma failures_Cons: "failures (ev # t) = (if ok (failure ev) then failures t else failure ev # failures t)"
  by (simp add: failures_def)

lemma stops_at_failure_append:
  "stops_at_failure (a @ b) \<longleftrightarrow>
     stops_at_failure a \<and> (if failures a = [] then stops_at_failure b else list_all unwinding b)"
  by (induction a) (auto simp: failures_Cons)

lemma no_failure_stops: "failures tr = [] \<Longrightarrow> stops_at_failure tr"
  by (induction tr) (auto simp: failures_Cons split: if_splits)

lemma failed_chunk_failure: "failed_chunk ev = Some f \<Longrightarrow> \<not> ok (failure ev)"
  by (induction ev rule: failed_chunk.induct) simp_all

lemma no_failed_chunk: "failures tr = [] \<Longrightarrow> ev \<in> set tr \<Longrightarrow> failed_chunk ev = None"
proof (induction tr)
  case Nil
  then show ?case by simp
next
  case (Cons a tr)
  then show ?case
    using failed_chunk_failure [of a] by (cases "failed_chunk a") (auto simp: failures_Cons split: if_splits)
qed

lemma fresh_chunk:
  "map fst cs = map int [0..<length cs] \<Longrightarrow> int (length cs) \<notin> fst ` set cs"
proof
  assume a: "map fst cs = map int [0..<length cs]" and b: "int (length cs) \<in> fst ` set cs"
  from b have "int (length cs) \<in> set (map fst cs)" by simp
  with a have "int (length cs) \<in> set (map int [0..<length cs])" by simp
  then show False by auto
qed

lemma failed_chunk_simps:
  "failed_chunk (EvWriteTensors f e r) = (if ok r then None else Some f)"
  "failed_chunk (EvClose f r) = (if ok r then None else Some f)"
  "failed_chunk (EvRename f r) = (if ok r then None else Some f)"
  by (cases r; simp)+

lemmas fail_simps = failures_append failures_Cons stops_at_failure_append failed_chunk_simps

lemma running_ShouldWriteChunk:
  "running m s \<Longrightarrow> ShouldWriteChunk s = (b, s1) \<Longrightarrow> running m s1"
  using at_boundary_ShouldWriteChunk [of m s b s1]
  by (auto simp: running_def ShouldWriteChunk_def prim_defs fail_simps)

lemma running_Initialize:
  assumes "running m s" "GetChunkFilePath s = (f, s1)" "Initialize f s1 = (r, s2)"
  shows "if ok r then writing m f s2 else stopped r s2"
proof -
  from assms(1) have a: "at_boundary m s" and n: "failures (trace s) = []"
    by (simp_all add: running_def)
  from at_boundary_GetChunkFilePath [OF a assms(2)]
  have a1: "at_boundary m s1" and f: "f = chunk_index s1" by simp_all
  from at_boundary_Initialize [OF a1 assms(3) [unfolded f]] f
  have fl: "r = OkStatus \<longrightarrow> filling m f s2" by simp
  have tr: "trace s2 = trace s @ [EvLock, EvUnlock, EvInitialize f r]"
    using assms(2,3) by (auto simp: GetChunkFilePath_def prim_defs)
  show ?thesis
  proof (cases r)
    case OkStatus
    with fl tr n show ?thesis by (simp add: writing_def fail_simps)
  next
    case (Error c e)
    with tr n no_failed_chunk [OF n] no_failure_stops [OF n] show ?thesis
      by (auto simp: stopped_def abandoned_def fail_simps)
  qed
qed


lemma writing_ShouldWriteRecord:
  "writing m f s \<Longrightarrow> ShouldWriteRecord s = (b, s1) \<Longrightarrow>
     writing m f s1 \<and> (b \<longrightarrow> chunk_size_bytes s1 < m)"
  using filling_ShouldWriteRecord [of m f s b s1]
  by (auto simp: writing_def ShouldWriteRecord_def prim_defs fail_simps)

lemma filling_file: "filling m f s \<Longrightarrow>
  uncommitted_chunks s f \<noteq> None \<and> f \<notin> fst ` set (committed_chunks s)"
  using fresh_chunk [of "committed_chunks s"] by (auto simp: filling_def chunks_inv_def)

lemma WriteRecord_trace:
  "WriteRecord f s = (r, s1) \<Longrightarrow>
     committed_chunks s1 = committed_chunks s \<and>
     (\<not> ok r \<longrightarrow> uncommitted_chunks s1 = uncommitted_chunks s) \<and>
     (\<exists>evs. trace s1 = trace s @ evs \<and> failures evs = (if ok r then [] else [r]) \<and>
        stops_at_failure evs \<and>
        (\<forall>ev \<in> set evs. \<forall>g. failed_chunk ev = Some g \<longrightarrow> g = f))"
  by (auto simp: WriteRecord_def prim_defs fail_simps
      split: list.splits next_result.splits Status.splits)

lemma writing_WriteRecord:
  assumes w: "writing m f s" and lt: "chunk_size_bytes s < m" and run: "WriteRecord f s = (r, s1)"
  shows "if ok r then writing m f s1 else stopped r s1"
proof -
  from w have fl: "filling m f s" and n: "failures (trace s) = []" by (simp_all add: writing_def)
  from filling_WriteRecord [OF fl lt run] have fl1: "r = OkStatus \<longrightarrow> filling m f s1" by simp
  from WriteRecord_trace [OF run] obtain evs where
    c: "committed_chunks s1 = committed_chunks s"
    and u: "\<not> ok r \<longrightarrow> uncommitted_chunks s1 = uncommitted_chunks s"
    and tr: "trace s1 = trace s @ evs"
    and fs: "failures evs = (if ok r then [] else [r])"
    and st: "stops_at_failure evs"
    and ch: "\<forall>ev \<in> set evs. \<forall>g. failed_chunk ev = Some g \<longrightarrow> g = f"
    by blast
  show ?thesis
  proof (cases r)
    case OkStatus
    with fl1 tr fs n show ?thesis by (simp add: writing_def fail_simps)
  next
    case (Error c e)
    with tr fs n st no_failure_stops [OF n]
    have 1: "failures (trace s1) = [r]" "stops_at_failure (trace s1)"
      by (simp_all add: fail_simps)
    have 2: "abandoned s1"
      unfolding abandoned_def
    proof (intro ballI allI impI)
      fix ev g assume "ev \<in> set (trace s1)" "failed_chunk ev = Some g"
      with tr no_failed_chunk [OF n, of ev] ch have "g = f" by auto
      with filling_file [OF fl] c u Error
      show "uncommitted_chunks s1 g \<noteq> None \<and> g \<notin> fst ` set (committed_chunks s1)" by simp
    qed
    from 1 2 Error show ?thesis by (simp add: stopped_def)
  qed
qed

lemma CommitChunk_trace:
  "CommitChunk f s = (r, s1) \<Longrightarrow>
     (\<not> ok r \<longrightarrow> uncommitted_chunks s1 = uncommitted_chunks s \<and>
        committed_chunks s1 = committed_chunks s) \<and>
     (\<exists>evs. trace s1 = trace s @ evs \<and> failures evs = (if ok r then [] else [r]) \<and>
        stops_at_failure evs \<and>
        (\<forall>ev \<in> set evs. \<forall>g. failed_chunk ev = Some g \<longrightarrow> g = f))"
  by (auto simp: CommitChunk_def prim_defs fail_simps
      split: option.splits list.splits Status.splits if_splits)

lemma stopped_cleanup: "stopped r s \<Longrightarrow> stopped r (cleanup f s)"
  by (auto simp: stopped_def abandoned_def prim_defs fail_simps)

lemma running_cleanup: "running m s \<Longrightarrow> running m (cleanup f s)"
  using at_boundary_cleanup [of m s f] by (auto simp: running_def prim_defs fail_simps)

lemma writing_CommitChunk:
  assumes w: "writing m f s" and run: "CommitChunk f s = (r, s1)"
  shows "if ok r then running m (cleanup f s1) else stopped r (cleanup f s1)"
proof -
  from w have fl: "filling m f s" and n: "failures (trace s) = []" by (simp_all add: writing_def)
  from filling_CommitChunk [OF fl run] have b1: "r = OkStatus \<longrightarrow> at_boundary m s1" by simp
  from CommitChunk_trace [OF run] obtain evs where
    u: "\<not> ok r \<longrightarrow> uncommitted_chunks s1 = uncommitted_chunks s \<and>
        committed_chunks s1 = committed_chunks s"
    and tr: "trace s1 = trace s @ evs"
    and fs: "failures evs = (if ok r then [] else [r])"
    and st: "stops_at_failure evs"
    and ch: "\<forall>ev \<in> set evs. \<forall>g. failed_chunk ev = Some g \<longrightarrow> g = f"
    by blast
  show ?thesis
  proof (cases r)
    case OkStatus
    with b1 tr fs n have "running m s1" by (simp add: running_def fail_simps)
    with OkStatus show ?thesis by (simp add: running_cleanup)
  next
    case (Error c e)
    with tr fs n st no_failure_stops [OF n]
    have 1: "failures (trace s1) = [r]" "stops_at_failure (trace s1)"
      by (simp_all add: fail_simps)
    have 2: "abandoned s1"
      unfolding abandoned_def
    proof (intro ballI allI impI)
      fix ev g assume "ev \<in> set (trace s1)" "failed_chunk ev = Some g"
      with tr no_failed_chunk [OF n, of ev] ch have "g = f" by auto
      with filling_file [OF fl] u Error
      show "uncommitted_chunks s1 g \<noteq> None \<and> g \<notin> fst ` set (committed_chunks s1)" by simp
    qed
    from 1 2 have "stopped r s1" by (simp add: stopped_def)
    with Error show ?thesis by (simp add: stopped_cleanup)
  qed
qed


lemma running_get_status:
  "running m s \<Longrightarrow> get_status s = (r, s1) \<Longrightarrow> failures (trace s1) = []"
  by (auto simp: running_def get_status_def prim_defs fail_simps)

lemma writing_record:
  "writing m f s \<Longrightarrow> ShouldWriteRecord s = (True, s1) \<Longrightarrow> WriteRecord f s1 = (r, s2) \<Longrightarrow>
     (if ok r then writing m f s2 else stopped r s2)"
  using writing_ShouldWriteRecord [of m f s True s1] writing_WriteRecord [of m f s1 r s2]
  by simp

lemma writing_stop:
  "writing m f s \<Longrightarrow> ShouldWriteRecord s = (False, s1) \<Longrightarrow> writing m f s1"
  using writing_ShouldWriteRecord [of m f s False s1] by simp

lemma running_WriteSnapshotFn_loop:
  assumes "running m s" and run: "WriteSnapshotFn_loop n s = (res, s')"
  shows "failures (trace s') = [] \<or> (\<exists>c e. res = Some (Error c e) \<and> stopped (Error c e) s')"
proof -
  have post: "case res of None \<Rightarrow> running m s'
        | Some r \<Rightarrow> (\<exists>s1. running m s1 \<and> get_status s1 = (r, s')) \<or> (\<not> ok r \<and> stopped r s')"
    by (rule WriteSnapshotFn_loop_rule
          [where I = "running m" and J = "writing m" and E = stopped,
            OF running_ShouldWriteChunk running_Initialize writing_record writing_stop
              writing_CommitChunk stopped_cleanup assms])
  show ?thesis
  proof (cases res)
    case None
    with post show ?thesis by (simp add: running_def)
  next
    case (Some r)
    with post
    have "(\<exists>s1. running m s1 \<and> get_status s1 = (r, s')) \<or> (\<not> ok r \<and> stopped r s')" by simp
    then show ?thesis
    proof
      assume "\<exists>s1. running m s1 \<and> get_status s1 = (r, s')"
      then show ?thesis using running_get_status by blast
    next
      assume "\<not> ok r \<and> stopped r s'"
      with Some show ?thesis by (cases r) auto
    qed
  qed
qed

lemma stopped_store:
  "stopped r s \<Longrightarrow> stopped r (mutex_unlock ((mutex_lock s)\<lparr>status := r'\<rparr>))"
  by (auto simp: stopped_def abandoned_def prim_defs fail_simps)

lemma failure_is_fatal:
  assumes run: "snapshot_fn n (new_SnapshotStreamWriter it mx rs cs) = (fin, s')"
  shows "failures (trace s') = [] \<or>
     (\<exists>c e. fin \<and> status s' = Error c e \<and> stopped (Error c e) s')"
proof -
  let ?s = "new_SnapshotStreamWriter it mx rs cs" and ?m = "configured_max mx"
  obtain r1 s1 where d: "CreateChunksDirectory ?s = (r1, s1)"
    by (cases "CreateChunksDirectory ?s")
  obtain res s2 where w: "WriteSnapshotFn n ?s = (res, s2)" by (cases "WriteSnapshotFn n ?s")
  have post: "failures (trace s2) = [] \<or> (\<exists>c e. res = Some (Error c e) \<and> stopped (Error c e) s2)"
  proof (cases r1)
    case OkStatus
    with d at_boundary_new [of mx it rs cs] have "running ?m s1"
      by (auto simp: running_def CreateChunksDirectory_def prim_defs at_boundary_def
          chunks_inv_def pulled_append new_SnapshotStreamWriter_def fail_simps)
    moreover from d w OkStatus have "WriteSnapshotFn_loop n s1 = (res, s2)"
      by (simp add: WriteSnapshotFn_def)
    ultimately show ?thesis by (rule running_WriteSnapshotFn_loop)
  next
    case (Error c e)
    with d w have "res = Some (Error c e)" "s2 = s1" by (simp_all add: WriteSnapshotFn_def)
    moreover from d Error have "stopped (Error c e) s1"
      by (auto simp: stopped_def abandoned_def CreateChunksDirectory_def prim_defs
          new_SnapshotStreamWriter_def fail_simps)
    ultimately show ?thesis by simp
  qed
  show ?thesis
  proof (cases res)
    case None
    with run w post show ?thesis by (auto simp: snapshot_fn_def)
  next
    case (Some r)
    show ?thesis
    proof (cases r)
      case OkStatus
      with Some run w post show ?thesis by (auto simp: snapshot_fn_def)
    next
      case (Error c e)
      with Some run w have s': "s' = mutex_unlock ((mutex_lock s2)\<lparr>status := Error c e\<rparr>)"
        and fin: "fin" by (auto simp: snapshot_fn_def Let_def)
      from post show ?thesis
      proof
        assume "failures (trace s2) = []"
        with s' show ?thesis by (simp add: prim_defs fail_simps)
      next
        assume "\<exists>c e. res = Some (Error c e) \<and> stopped (Error c e) s2"
        with Some Error have "stopped (Error c e) s2" by simp
        from stopped_store [OF this, of "Error c e"] s' fin show ?thesis
          by (simp add: prim_defs)
      qed
    qed
  qed
qed

lemma failure_in_failures: "ev \<in> set tr \<Longrightarrow> \<not> ok (failure ev) \<Longrightarrow> failure ev \<in> set (failures tr)"
  by (simp add: failures_def)


text \<open>
  In every run, when \<^verbatim>\<open>WriteTensors\<close> fails, or when the \<^verbatim>\<open>Close\<close> that \<^verbatim>\<open>WriteRecord\<close>
  calls at the end of the sequence fails, the thread ends there: it makes no further call
  but the cleanup's \<^verbatim>\<open>Close\<close> and the mutex, the error is stored in the status cell, and
  \<^verbatim>\<open>Wait\<close> returns it unless a \<^verbatim>\<open>Cancel\<close> comes after the thread has stored it. The chunk
  is not committed, and its file stays in the uncommitted directory.
\<close>

lemma checked_sink_failure_is_fatal:
  assumes "snapshot_fn n (new_SnapshotStreamWriter it mx rs cs) = (fin, s')"
    and "EvWriteTensors f e (Error c m) \<in> set (trace s') \<or> EvClose f (Error c m) \<in> set (trace s')"
  shows "fin \<and> status s' = Error c m \<and>
     (\<not> cancel_pending s' \<longrightarrow> fst (Wait s') = Error c m) \<and>
     stops_at_failure (trace s') \<and>
     uncommitted_chunks s' f \<noteq> None \<and> f \<notin> fst ` set (committed_chunks s')"
proof -
  from assms(2) obtain ev where ev: "ev \<in> set (trace s')" "failure ev = Error c m"
    "failed_chunk ev = Some f" by auto
  then have "Error c m \<in> set (failures (trace s'))"
    using failure_in_failures [of ev "trace s'"] by simp
  with failure_is_fatal [OF assms(1)]
  have fin: "fin" and st: "status s' = Error c m" and sp: "stopped (Error c m) s'"
    by (auto simp: stopped_def)
  from sp ev have "uncommitted_chunks s' f \<noteq> None \<and> f \<notin> fst ` set (committed_chunks s')"
    by (auto simp: stopped_def abandoned_def)
  moreover have "\<not> cancel_pending s' \<longrightarrow> fst (Wait s') = Error c m"
    using st by (simp add: Wait_def mutex_lock_def mutex_unlock_def Let_def)
  ultimately show ?thesis using fin st sp by (simp add: stopped_def)
qed

text \<open>
  A run in which the second \<^verbatim>\<open>WriteTensors\<close> fails, and a run in which the \<^verbatim>\<open>Close\<close> at
  the end of the sequence fails.
\<close>

definition write_failure :: SnapshotStreamWriter where
  "write_failure =
     new_SnapshotStreamWriter
       [Element (Tensors 1 300), Element (Tensors 2 300), EndOfSequence]
       (Some 500)
       [OkStatus, OkStatus, OkStatus, Error DATA_LOSS ''write'']
       []"

definition close_failure :: SnapshotStreamWriter where
  "close_failure =
     new_SnapshotStreamWriter
       [Element (Tensors 1 300), EndOfSequence]
       (Some 500)
       [OkStatus, OkStatus, OkStatus, Error DATA_LOSS ''close'']
       []"

lemma checked_sink_failure_runs:
  "EvWriteTensors 0 (Tensors 2 300) (Error DATA_LOSS ''write'')
     \<in> set (trace (snd (snapshot_fn 2 write_failure))) \<and>
   fst (snapshot_fn 2 write_failure) \<and>
   status (snd (snapshot_fn 2 write_failure)) = Error DATA_LOSS ''write'' \<and>
   fst (Wait (snd (snapshot_fn 2 write_failure))) = Error DATA_LOSS ''write'' \<and>
   uncommitted_chunks (snd (snapshot_fn 2 write_failure)) 0 \<noteq> None \<and>
   0 \<notin> fst ` set (committed_chunks (snd (snapshot_fn 2 write_failure))) \<and>
   EvClose 0 (Error DATA_LOSS ''close'') \<in> set (trace (snd (snapshot_fn 2 close_failure))) \<and>
   fst (snapshot_fn 2 close_failure) \<and>
   status (snd (snapshot_fn 2 close_failure)) = Error DATA_LOSS ''close'' \<and>
   fst (Wait (snd (snapshot_fn 2 close_failure))) = Error DATA_LOSS ''close'' \<and>
   uncommitted_chunks (snd (snapshot_fn 2 close_failure)) 0 \<noteq> None \<and>
   0 \<notin> fst ` set (committed_chunks (snd (snapshot_fn 2 close_failure)))"
proof -
  have 1: "EvWriteTensors 0 (Tensors 2 300) (Error DATA_LOSS ''write'')
      \<in> set (trace (snd (snapshot_fn 2 write_failure)))"
    unfolding write_failure_def by code_simp
  have 2: "\<not> cancel_pending (snd (snapshot_fn 2 write_failure))"
    unfolding write_failure_def by code_simp
  have 3: "snapshot_fn 2 write_failure =
      (fst (snapshot_fn 2 write_failure), snd (snapshot_fn 2 write_failure))" by simp
  have 4: "EvClose 0 (Error DATA_LOSS ''close'') \<in> set (trace (snd (snapshot_fn 2 close_failure)))"
    unfolding close_failure_def by code_simp
  have 5: "\<not> cancel_pending (snd (snapshot_fn 2 close_failure))"
    unfolding close_failure_def by code_simp
  have 6: "snapshot_fn 2 close_failure =
      (fst (snapshot_fn 2 close_failure), snd (snapshot_fn 2 close_failure))" by simp
  from checked_sink_failure_is_fatal [OF 3 [unfolded write_failure_def], folded write_failure_def] 1 2
    checked_sink_failure_is_fatal [OF 6 [unfolded close_failure_def], folded close_failure_def] 4 5
  show ?thesis by blast
qed

text \<open>
  A run in which \<^verbatim>\<open>chunk_0\<close> is left by rotation: \<^verbatim>\<open>WriteChunk\<close> renames the file with
  the record writer still open, and the only \<^verbatim>\<open>Close\<close> of that record writer is the one
  of the cleanup object, whose status is dropped by \<^verbatim>\<open>IgnoreError\<close>. That \<^verbatim>\<open>Close\<close> is the
  sixth call to the file system and the record writer, and it fails.
\<close>

definition close_after_rotation :: SnapshotStreamWriter where
  "close_after_rotation =
     new_SnapshotStreamWriter
       [Element (Tensors 1 300), Element (Tensors 2 300), Element (Tensors 3 300), EndOfSequence]
       (Some 500)
       [OkStatus, OkStatus, OkStatus, OkStatus, OkStatus, Error DATA_LOSS ''close'']
       []"

text \<open>
  C7: a failure to close the record writer is fatal, becomes the status that \<^verbatim>\<open>Wait\<close>
  returns, and the chunk is abandoned. In the run above the record writer of \<^verbatim>\<open>chunk_0\<close> is
  closed once, after the file has been renamed, and the close fails. The failure is lost:
  the thread goes on to \<^verbatim>\<open>chunk_1\<close> and ends with both chunks committed, nothing is left
  in the uncommitted directory, the status cell holds ok and \<^verbatim>\<open>Wait\<close> returns ok.
\<close>

theorem close_failure_after_rotation_lost:
  "filter (on_chunk 0) (trace (snd (snapshot_fn 3 close_after_rotation))) =
     [EvInitialize 0 OkStatus,
      EvWriteTensors 0 (Tensors 1 300) OkStatus,
      EvWriteTensors 0 (Tensors 2 300) OkStatus,
      EvRename 0 OkStatus,
      EvCleanup 0 (Error DATA_LOSS ''close'')] \<and>
   fst (snapshot_fn 3 close_after_rotation) \<and>
   committed_chunks (snd (snapshot_fn 3 close_after_rotation)) =
     [(0, [Tensors 1 300, Tensors 2 300]), (1, [Tensors 3 300])] \<and>
   uncommitted_chunks (snd (snapshot_fn 3 close_after_rotation)) 0 = None \<and>
   status (snd (snapshot_fn 3 close_after_rotation)) = OkStatus \<and>
   fst (Wait (snd (snapshot_fn 3 close_after_rotation))) = OkStatus"
  unfolding close_after_rotation_def by code_simp

section \<open>The commit\<close>

text \<open>
  C8: \<^verbatim>\<open>CommitChunk\<close> renames first and touches the counters after. When the renaming
  succeeds, the file has moved to the committed directory, and then, under the mutex,
  \<open>chunk_index\<close> is one more and \<open>chunk_size_bytes\<close> is 0. When the renaming fails,
  \<^verbatim>\<open>CommitChunk\<close> returns the error after that one attempt, with \<open>chunk_index\<close>,
  \<open>chunk_size_bytes\<close> and both directories as they were. In every run a failed renaming
  ends the thread: it makes no further call but the cleanup's \<^verbatim>\<open>Close\<close> and the mutex, the
  error is stored in the status cell, and the chunk file is in the uncommitted directory
  and not in the committed one.
\<close>

theorem commit_after_rename:
  "(uncommitted_chunks s f = Some es \<and> next_env_result s = OkStatus \<longrightarrow>
      fst (CommitChunk f s) = OkStatus \<and>
      chunk_index (snd (CommitChunk f s)) = chunk_index s + 1 \<and>
      chunk_size_bytes (snd (CommitChunk f s)) = 0 \<and>
      committed_chunks (snd (CommitChunk f s)) = committed_chunks s @ [(f, es)] \<and>
      uncommitted_chunks (snd (CommitChunk f s)) = (uncommitted_chunks s)(f := None) \<and>
      trace (snd (CommitChunk f s)) = trace s @ [EvRename f OkStatus, EvLock, EvUnlock]) \<and>
   (fst (RenameFile f s) = Error c m \<longrightarrow>
      fst (CommitChunk f s) = Error c m \<and>
      chunk_index (snd (CommitChunk f s)) = chunk_index s \<and>
      chunk_size_bytes (snd (CommitChunk f s)) = chunk_size_bytes s \<and>
      uncommitted_chunks (snd (CommitChunk f s)) = uncommitted_chunks s \<and>
      committed_chunks (snd (CommitChunk f s)) = committed_chunks s \<and>
      trace (snd (CommitChunk f s)) = trace s @ [EvRename f (Error c m)]) \<and>
   (EvRename g (Error c m) \<in> set (trace (snd (snapshot_fn n (new_SnapshotStreamWriter it mx rs cs)))) \<longrightarrow>
      fst (snapshot_fn n (new_SnapshotStreamWriter it mx rs cs)) \<and>
      status (snd (snapshot_fn n (new_SnapshotStreamWriter it mx rs cs))) = Error c m \<and>
      stops_at_failure (trace (snd (snapshot_fn n (new_SnapshotStreamWriter it mx rs cs)))) \<and>
      uncommitted_chunks (snd (snapshot_fn n (new_SnapshotStreamWriter it mx rs cs))) g \<noteq> None \<and>
      g \<notin> fst ` set (committed_chunks (snd (snapshot_fn n (new_SnapshotStreamWriter it mx rs cs)))))"
proof -
  let ?run = "snapshot_fn n (new_SnapshotStreamWriter it mx rs cs)"
  have 1: "fst (CommitChunk f s) = OkStatus \<and>
      chunk_index (snd (CommitChunk f s)) = chunk_index s + 1 \<and>
      chunk_size_bytes (snd (CommitChunk f s)) = 0 \<and>
      committed_chunks (snd (CommitChunk f s)) = committed_chunks s @ [(f, es)] \<and>
      uncommitted_chunks (snd (CommitChunk f s)) = (uncommitted_chunks s)(f := None) \<and>
      trace (snd (CommitChunk f s)) = trace s @ [EvRename f OkStatus, EvLock, EvUnlock]"
    if "uncommitted_chunks s f = Some es" "next_env_result s = OkStatus"
    using that by (simp add: CommitChunk_def RenameFile_def mutex_lock_def mutex_unlock_def Let_def)
  have 2: "fst (CommitChunk f s) = Error c m \<and>
      chunk_index (snd (CommitChunk f s)) = chunk_index s \<and>
      chunk_size_bytes (snd (CommitChunk f s)) = chunk_size_bytes s \<and>
      uncommitted_chunks (snd (CommitChunk f s)) = uncommitted_chunks s \<and>
      committed_chunks (snd (CommitChunk f s)) = committed_chunks s \<and>
      trace (snd (CommitChunk f s)) = trace s @ [EvRename f (Error c m)]"
    if "fst (RenameFile f s) = Error c m"
    using that by (auto simp: CommitChunk_def RenameFile_def Let_def split: option.splits)
  have 3: "fst ?run \<and> status (snd ?run) = Error c m \<and> stops_at_failure (trace (snd ?run)) \<and>
      uncommitted_chunks (snd ?run) g \<noteq> None \<and> g \<notin> fst ` set (committed_chunks (snd ?run))"
    if ev: "EvRename g (Error c m) \<in> set (trace (snd ?run))"
  proof -
    have "Error c m \<in> set (failures (trace (snd ?run)))"
      using failure_in_failures [OF ev] by simp
    with failure_is_fatal [of n it mx rs cs "fst ?run" "snd ?run"]
    have "fst ?run" "status (snd ?run) = Error c m" "stopped (Error c m) (snd ?run)"
      by (auto simp: stopped_def)
    with ev show ?thesis by (auto simp: stopped_def abandoned_def)
  qed
  from 1 2 3 show ?thesis by blast
qed

text \<open>
  A run in which the renaming of \<^verbatim>\<open>chunk_0\<close> fails, and the state of a writer that has
  written one record to \<^verbatim>\<open>chunk_0\<close>, with the statuses \<open>rs\<close> for the calls to come.
\<close>

definition rename_failure :: SnapshotStreamWriter where
  "rename_failure =
     new_SnapshotStreamWriter
       [Element (Tensors 1 300), EndOfSequence]
       (Some 500)
       [OkStatus, OkStatus, OkStatus, OkStatus, Error UNAVAILABLE ''rename'']
       []"

definition before_commit :: "Status list \<Rightarrow> SnapshotStreamWriter" where
  "before_commit rs =
     snd (WriteTensors 0 (Tensors 1 300)
       (snd (Initialize 0 (new_SnapshotStreamWriter [] (Some 500) (OkStatus # OkStatus # rs) []))))"

theorem commit_after_rename_witness:
  "uncommitted_chunks (before_commit []) 0 = Some [Tensors 1 300] \<and>
   next_env_result (before_commit []) = OkStatus \<and>
   chunk_index (snd (CommitChunk 0 (before_commit []))) = 1 \<and>
   chunk_size_bytes (snd (CommitChunk 0 (before_commit []))) = 0 \<and>
   committed_chunks (snd (CommitChunk 0 (before_commit []))) = [(0, [Tensors 1 300])] \<and>
   fst (RenameFile 0 (before_commit [Error UNAVAILABLE ''rename''])) = Error UNAVAILABLE ''rename'' \<and>
   fst (CommitChunk 0 (before_commit [Error UNAVAILABLE ''rename''])) = Error UNAVAILABLE ''rename'' \<and>
   chunk_index (snd (CommitChunk 0 (before_commit [Error UNAVAILABLE ''rename'']))) = 0 \<and>
   uncommitted_chunks (snd (CommitChunk 0 (before_commit [Error UNAVAILABLE ''rename'']))) 0
     = Some [Tensors 1 300] \<and>
   committed_chunks (snd (CommitChunk 0 (before_commit [Error UNAVAILABLE ''rename'']))) = [] \<and>
   EvRename 0 (Error UNAVAILABLE ''rename'') \<in> set (trace (snd (snapshot_fn 2 rename_failure))) \<and>
   fst (snapshot_fn 2 rename_failure) \<and>
   status (snd (snapshot_fn 2 rename_failure)) = Error UNAVAILABLE ''rename'' \<and>
   uncommitted_chunks (snd (snapshot_fn 2 rename_failure)) 0 \<noteq> None"
proof -
  have a: "uncommitted_chunks (before_commit []) 0 = Some [Tensors 1 300]"
    "next_env_result (before_commit []) = OkStatus"
    "chunk_index (before_commit []) = 0" "committed_chunks (before_commit []) = []"
    unfolding before_commit_def by code_simp+
  have b: "fst (RenameFile 0 (before_commit [Error UNAVAILABLE ''rename''])) = Error UNAVAILABLE ''rename''"
    "chunk_index (before_commit [Error UNAVAILABLE ''rename'']) = 0"
    "uncommitted_chunks (before_commit [Error UNAVAILABLE ''rename'']) 0 = Some [Tensors 1 300]"
    "committed_chunks (before_commit [Error UNAVAILABLE ''rename'']) = []"
    unfolding before_commit_def by code_simp+
  have c: "EvRename 0 (Error UNAVAILABLE ''rename'') \<in> set (trace (snd (snapshot_fn 2 rename_failure)))"
    unfolding rename_failure_def by code_simp
  from commit_after_rename [where s = "before_commit []" and f = 0 and es = "[Tensors 1 300]"] a
  have 1: "chunk_index (snd (CommitChunk 0 (before_commit []))) = 1"
    "chunk_size_bytes (snd (CommitChunk 0 (before_commit []))) = 0"
    "committed_chunks (snd (CommitChunk 0 (before_commit []))) = [(0, [Tensors 1 300])]"
    by simp_all
  from commit_after_rename [where s = "before_commit [Error UNAVAILABLE ''rename'']" and f = 0
      and c = UNAVAILABLE and m = "''rename''"] b
  have 2: "fst (CommitChunk 0 (before_commit [Error UNAVAILABLE ''rename''])) = Error UNAVAILABLE ''rename''"
    "chunk_index (snd (CommitChunk 0 (before_commit [Error UNAVAILABLE ''rename'']))) = 0"
    "uncommitted_chunks (snd (CommitChunk 0 (before_commit [Error UNAVAILABLE ''rename'']))) 0
      = Some [Tensors 1 300]"
    "committed_chunks (snd (CommitChunk 0 (before_commit [Error UNAVAILABLE ''rename'']))) = []"
    by simp_all
  from commit_after_rename [where c = UNAVAILABLE and m = "''rename''" and g = 0 and n = 2
      and it = "[Element (Tensors 1 300), EndOfSequence]" and mx = "Some 500"
      and rs = "[OkStatus, OkStatus, OkStatus, OkStatus, Error UNAVAILABLE ''rename'']"
      and cs = "[]", folded rename_failure_def] c
  have 3: "fst (snapshot_fn 2 rename_failure)"
    "status (snd (snapshot_fn 2 rename_failure)) = Error UNAVAILABLE ''rename''"
    "uncommitted_chunks (snd (snapshot_fn 2 rename_failure)) 0 \<noteq> None"
    by blast+
  from a b c 1 2 3 show ?thesis by simp
qed

section \<open>The end of the sequence commits the open chunk\<close>

text \<open>
  The states of a run in which no call has failed: between two chunks the uncommitted
  directory is empty, and once the iterator has reported the end of the sequence, the last
  committed chunk is the one whose record writer \<^verbatim>\<open>WriteRecord\<close> has closed; while the chunk
  file \<open>f\<close> is filled it is the only file of the uncommitted directory, and once the
  iterator has reported the end, its record writer has been closed. The flag \<open>q\<close> says
  that, moreover, no thread calls \<^verbatim>\<open>Cancel\<close>: then the status cell holds ok.
\<close>

definition calm :: "bool \<Rightarrow> SnapshotStreamWriter \<Rightarrow> bool" where
  "calm q s \<longleftrightarrow> (q \<longrightarrow> True \<notin> set (cancels s) \<and> status s = OkStatus)"

definition draining :: "bool \<Rightarrow> int \<Rightarrow> SnapshotStreamWriter \<Rightarrow> bool" where
  "draining q m s \<longleftrightarrow>
     at_boundary m s \<and> failures (trace s) = [] \<and> calm q s \<and>
     uncommitted_chunks s = Map.empty \<and>
     (end_of_sequence s \<longrightarrow>
        committed_chunks s \<noteq> [] \<and>
        EvClose (fst (last (committed_chunks s))) OkStatus \<in> set (trace s))"

definition draining_chunk :: "bool \<Rightarrow> int \<Rightarrow> chunk_file \<Rightarrow> SnapshotStreamWriter \<Rightarrow> bool" where
  "draining_chunk q m f s \<longleftrightarrow>
     filling m f s \<and> failures (trace s) = [] \<and> calm q s \<and>
     (\<forall>g. g \<noteq> f \<longrightarrow> uncommitted_chunks s g = None) \<and>
     (end_of_sequence s \<longrightarrow> EvClose f OkStatus \<in> set (trace s))"

definition failed :: "Status \<Rightarrow> SnapshotStreamWriter \<Rightarrow> bool" where
  "failed r s \<longleftrightarrow> failures (trace s) \<noteq> []"

lemma ok_iff: "ok r \<longleftrightarrow> r = OkStatus"
  by (cases r) simp_all

lemma no_cancel_tl: "True \<notin> set cs \<Longrightarrow> True \<notin> set (tl cs)"
  by (cases cs) auto

lemma no_cancel_pending: "True \<notin> set (cancels s) \<Longrightarrow> \<not> cancel_pending s"
  by (cases "cancels s") (auto simp: cancel_pending_def)

lemma calm_mutex_lock: "calm q s \<Longrightarrow> calm q (mutex_lock s)"
  by (auto simp: calm_def mutex_lock_def no_cancel_tl no_cancel_pending)

lemma calm_same:
  "calm q s \<Longrightarrow> cancels s1 = cancels s \<Longrightarrow> status s1 = status s \<Longrightarrow> calm q s1"
  by (simp add: calm_def)

lemmas drain_simps = mutex_lock_def mutex_unlock_def Let_def no_cancel_tl no_cancel_pending
  failures_append failures_Cons calm_def

lemma draining_ShouldWriteChunk:
  assumes "draining q m s" "ShouldWriteChunk s = (b, s1)"
  shows "if b then draining q m s1 \<and> \<not> end_of_sequence s1 else draining q m s1"
proof -
  from assms(1) have a: "at_boundary m s" by (simp add: draining_def)
  from at_boundary_ShouldWriteChunk [OF a assms(2)] have "at_boundary m s1" .
  with assms show ?thesis
    by (auto simp: draining_def ShouldWriteChunk_def drain_simps)
qed

lemma draining_Initialize:
  assumes "draining q m s \<and> \<not> end_of_sequence s" "GetChunkFilePath s = (f, s1)"
    "Initialize f s1 = (r, s2)"
  shows "if ok r then draining_chunk q m f s2 else failed r s2"
proof -
  from assms(1) have a: "at_boundary m s" by (simp add: draining_def)
  from at_boundary_GetChunkFilePath [OF a assms(2)]
  have a1: "at_boundary m s1" and f: "f = chunk_index s1" by simp_all
  from at_boundary_Initialize [OF a1 assms(3) [unfolded f]] f
  have fl: "r = OkStatus \<longrightarrow> filling m f s2" by simp
  show ?thesis
  proof (cases r)
    case OkStatus
    with fl assms show ?thesis
      by (auto simp: draining_def draining_chunk_def GetChunkFilePath_def Initialize_def
          next_env_result_def drain_simps split: list.splits)
  next
    case (Error c e)
    with assms show ?thesis
      by (auto simp: failed_def GetChunkFilePath_def Initialize_def next_env_result_def
          drain_simps split: list.splits)
  qed
qed

lemma draining_chunk_guard:
  assumes "draining_chunk q m f s" "ShouldWriteRecord s = (b, s1)"
  shows "draining_chunk q m f s1 \<and> (b \<longrightarrow> chunk_size_bytes s1 < m \<and> \<not> end_of_sequence s1)"
proof -
  from assms(1) have a: "filling m f s" by (simp add: draining_chunk_def)
  from filling_ShouldWriteRecord [OF a assms(2)]
  have "filling m f s1" "b \<longrightarrow> chunk_size_bytes s1 < m" by simp_all
  with assms show ?thesis
    by (auto simp: draining_chunk_def ShouldWriteRecord_def drain_simps)
qed

lemma draining_chunk_stop:
  "draining_chunk q m f s \<Longrightarrow> ShouldWriteRecord s = (False, s1) \<Longrightarrow> draining_chunk q m f s1"
  using draining_chunk_guard [of q m f s False s1] by simp

lemma WriteRecord_frame:
  assumes "WriteRecord f s = (r, s1)" "calm q s"
    "failures (trace s) = []" "\<forall>g. g \<noteq> f \<longrightarrow> uncommitted_chunks s g = None"
  shows "calm q s1 \<and>
     (\<forall>g. g \<noteq> f \<longrightarrow> uncommitted_chunks s1 g = None) \<and>
     (if ok r then failures (trace s1) = [] \<and>
        (end_of_sequence s1 \<longrightarrow> EvClose f OkStatus \<in> set (trace s1))
      else failures (trace s1) \<noteq> [])"
  using assms
  by (auto simp: WriteRecord_def GetNext_def WriteTensors_def Close_def next_env_result_def
      drain_simps ok_iff split: list.splits next_result.splits Status.splits)

lemma draining_chunk_record:
  assumes "draining_chunk q m f s" "ShouldWriteRecord s = (True, s1)"
    "WriteRecord f s1 = (r, s2)"
  shows "if ok r then draining_chunk q m f s2 else failed r s2"
proof -
  from draining_chunk_guard [OF assms(1,2)]
  have d1: "draining_chunk q m f s1" and lt: "chunk_size_bytes s1 < m" by simp_all
  then have fl: "filling m f s1" by (simp add: draining_chunk_def)
  from filling_WriteRecord [OF fl lt assms(3)] have fl2: "r = OkStatus \<longrightarrow> filling m f s2" by simp
  from d1 WriteRecord_frame [OF assms(3), of q]
  have fr: "calm q s2 \<and>
     (\<forall>g. g \<noteq> f \<longrightarrow> uncommitted_chunks s2 g = None) \<and>
     (if ok r then failures (trace s2) = [] \<and>
        (end_of_sequence s2 \<longrightarrow> EvClose f OkStatus \<in> set (trace s2))
      else failures (trace s2) \<noteq> [])"
    by (simp add: draining_chunk_def)
  show ?thesis
  proof (cases r)
    case OkStatus
    with fl2 fr show ?thesis by (simp add: draining_chunk_def)
  next
    case (Error c e)
    with fr show ?thesis by (simp add: failed_def)
  qed
qed

lemma CommitChunk_frame:
  assumes "CommitChunk f s = (r, s1)" "calm q s"
    "failures (trace s) = []" "\<forall>g. g \<noteq> f \<longrightarrow> uncommitted_chunks s g = None"
  shows "if ok r
     then calm q s1 \<and> failures (trace s1) = [] \<and>
       uncommitted_chunks s1 = Map.empty \<and> committed_chunks s1 \<noteq> [] \<and>
       fst (last (committed_chunks s1)) = f \<and> end_of_sequence s1 = end_of_sequence s \<and>
       set (trace s) \<subseteq> set (trace s1)
     else failures (trace s1) \<noteq> []"
  using assms
  by (auto simp: CommitChunk_def RenameFile_def next_env_result_def drain_simps fun_eq_iff
      split: option.splits list.splits Status.splits if_splits)

lemma failed_cleanup: "failed r s \<Longrightarrow> failed r (cleanup f s)"
  by (simp add: failed_def cleanup_def drain_simps)

lemma draining_cleanup: "draining q m s \<Longrightarrow> draining q m (cleanup f s)"
  using at_boundary_cleanup [of m s f]
  by (auto simp: draining_def cleanup_def drain_simps)

lemma draining_chunk_commit:
  assumes "draining_chunk q m f s" "CommitChunk f s = (r, s1)"
  shows "if ok r then draining q m (cleanup f s1) else failed r (cleanup f s1)"
proof -
  from assms(1) have fl: "filling m f s" by (simp add: draining_chunk_def)
  from filling_CommitChunk [OF fl assms(2)] have b1: "r = OkStatus \<longrightarrow> at_boundary m s1" by simp
  from assms(1) CommitChunk_frame [OF assms(2), of q]
  have fr: "if ok r
     then calm q s1 \<and> failures (trace s1) = [] \<and>
       uncommitted_chunks s1 = Map.empty \<and> committed_chunks s1 \<noteq> [] \<and>
       fst (last (committed_chunks s1)) = f \<and> end_of_sequence s1 = end_of_sequence s \<and>
       set (trace s) \<subseteq> set (trace s1)
     else failures (trace s1) \<noteq> []"
    by (simp add: draining_chunk_def)
  show ?thesis
  proof (cases r)
    case OkStatus
    with b1 fr assms(1) have "draining q m s1"
      by (auto simp: draining_def draining_chunk_def)
    with OkStatus show ?thesis by (simp add: draining_cleanup)
  next
    case (Error c e)
    with fr have "failed r s1" by (simp add: failed_def)
    with Error show ?thesis by (simp add: failed_cleanup)
  qed
qed

lemma draining_get_status:
  "draining q m s \<Longrightarrow> get_status s = (r, s1) \<Longrightarrow>
     (q \<longrightarrow> r = OkStatus) \<and> draining q m s1 \<and> committed_chunks s1 = committed_chunks s"
  by (auto simp: draining_def get_status_def at_boundary_def chunks_inv_def pulled_append
      drain_simps)

lemma draining_WriteSnapshotFn_loop:
  assumes d: "draining q m s" and run: "WriteSnapshotFn_loop n s = (res, s')"
    and nf: "failures (trace s') = []"
  shows "draining q m s' \<and> (res = None \<or> (\<exists>r. res = Some r \<and> (q \<longrightarrow> r = OkStatus)))"
proof -
  have post: "case res of
        None \<Rightarrow> draining q m s'
      | Some r \<Rightarrow>
          (\<exists>s0 s1. draining q m s0 \<and> ShouldWriteChunk s0 = (False, s1) \<and> draining q m s1 \<and>
             get_status s1 = (r, s')) \<or>
          (\<not> ok r \<and> failed r s')"
    by (rule WriteSnapshotFn_loop_guarded_rule
          [where I = "draining q m" and P = "\<lambda>s. draining q m s \<and> \<not> end_of_sequence s"
             and J = "draining_chunk q m" and E = failed,
            OF draining_ShouldWriteChunk draining_Initialize draining_chunk_record
              draining_chunk_stop draining_chunk_commit failed_cleanup d run])
  show ?thesis
  proof (cases res)
    case None
    with post show ?thesis by simp
  next
    case (Some r)
    with post nf obtain s1 where "draining q m s1" "get_status s1 = (r, s')"
      by (auto simp: failed_def)
    with Some draining_get_status [of q m s1 r s'] show ?thesis by simp
  qed
qed

text \<open>A larger bound on the number of chunks continues the same run.\<close>

lemma WriteSnapshotFn_loop_more_fuel:
  "WriteSnapshotFn_loop n s = (Some r, s') \<Longrightarrow> WriteSnapshotFn_loop (Suc n) s = (Some r, s')"
proof (induction n arbitrary: s)
  case 0
  then show ?case by simp
next
  case (Suc n)
  obtain b s1 where g: "ShouldWriteChunk s = (b, s1)" by (cases "ShouldWriteChunk s")
  obtain r2 s2 where w: "WriteChunk s1 = (r2, s2)" by (cases "WriteChunk s1")
  show ?case
  proof (cases "b \<and> r2 = OkStatus")
    case True
    with g w Suc.prems have "WriteSnapshotFn_loop n s2 = (Some r, s')" by simp
    from Suc.IH [OF this] g w True show ?thesis by simp
  next
    case False
    with g w Suc.prems show ?thesis by (cases b; cases r2) (auto split: prod.splits)
  qed
qed

lemma WriteSnapshotFn_loop_resume:
  "WriteSnapshotFn_loop n s = (None, s') \<Longrightarrow>
     WriteSnapshotFn_loop (Suc n) s = WriteSnapshotFn_loop (Suc 0) s'"
proof (induction n arbitrary: s)
  case 0
  then show ?case by simp
next
  case (Suc n)
  obtain b s1 where g: "ShouldWriteChunk s = (b, s1)" by (cases "ShouldWriteChunk s")
  obtain r2 s2 where w: "WriteChunk s1 = (r2, s2)" by (cases "WriteChunk s1")
  show ?case
  proof (cases "b \<and> r2 = OkStatus")
    case True
    with g w Suc.prems have "WriteSnapshotFn_loop n s2 = (None, s')" by simp
    from Suc.IH [OF this] g w True show ?thesis by simp
  next
    case False
    with g w Suc.prems show ?thesis by (cases b; cases r2) (auto split: prod.splits)
  qed
qed

lemma draining_at_end:
  assumes "draining q m s" "end_of_sequence s"
  shows "\<exists>r s1. WriteSnapshotFn_loop (Suc 0) s = (Some r, s1) \<and> (q \<longrightarrow> r = OkStatus) \<and>
     draining q m s1 \<and> committed_chunks s1 = committed_chunks s"
proof -
  obtain b s1 where g: "ShouldWriteChunk s = (b, s1)" by (cases "ShouldWriteChunk s")
  with assms have b: "b = False" and c1: "committed_chunks s1 = committed_chunks s"
    by (auto simp: ShouldWriteChunk_def mutex_lock_def mutex_unlock_def Let_def)
  from draining_ShouldWriteChunk [OF assms(1) g] b have d1: "draining q m s1" by simp
  obtain r s2 where e: "get_status s1 = (r, s2)" by (cases "get_status s1")
  from draining_get_status [OF d1 e]
  have "q \<longrightarrow> r = OkStatus" "draining q m s2" "committed_chunks s2 = committed_chunks s1"
    by simp_all
  then show ?thesis using g b e c1 by simp
qed

lemma end_reported_event: "EvGetNext EndOfSequence \<in> set tr \<Longrightarrow> end_reported seen tr"
proof (induction seen tr rule: end_reported.induct)
  case (2 seen r t)
  have "end_reported True t" for t by (induction t rule: pulled.induct) simp_all
  with 2 show ?case by (cases "r = EndOfSequence") auto
qed simp_all

lemma draining_new:
  "draining (True \<notin> set cs) (configured_max mx) (new_SnapshotStreamWriter it mx rs cs)"
  using at_boundary_new [of mx it rs cs]
  by (simp add: draining_def calm_def new_SnapshotStreamWriter_def)

lemma draining_CreateChunksDirectory:
  assumes "draining q m s" "CreateChunksDirectory s = (r, s1)"
  shows "if ok r then draining q m s1 else failures (trace s1) = [r]"
  using assms
  by (auto simp: draining_def CreateChunksDirectory_def RecursivelyCreateDir_def
      next_env_result_def at_boundary_def chunks_inv_def pulled_append drain_simps ok_iff
      split: list.splits)

text \<open>What the thread does with the status that \<^verbatim>\<open>WriteSnapshotFn\<close> returns.\<close>

definition finish :: "Status \<Rightarrow> SnapshotStreamWriter \<Rightarrow> SnapshotStreamWriter" where
  "finish r s = (if ok r then s else mutex_unlock ((mutex_lock s)\<lparr>status := r\<rparr>))"

lemma snapshot_fn_finish:
  "WriteSnapshotFn n s = (Some r, s1) \<Longrightarrow> snapshot_fn n s = (True, finish r s1)"
  by (cases r) (simp_all add: snapshot_fn_def finish_def Let_def)

lemma finish_frame:
  "committed_chunks (finish r s) = committed_chunks s \<and>
   uncommitted_chunks (finish r s) = uncommitted_chunks s \<and>
   failures (trace (finish r s)) = failures (trace s) \<and>
   pulled (trace (finish r s)) = pulled (trace s) \<and>
   set (trace s) \<subseteq> set (trace (finish r s)) \<and>
   end_of_sequence (finish r s) = end_of_sequence s \<and>
   (r = OkStatus \<longrightarrow> finish r s = s)"
  by (auto simp: finish_def mutex_lock_def mutex_unlock_def failures_append failures_Cons
      pulled_append)

text \<open>
  Two writers whose iterator has no element. For the first the \<^verbatim>\<open>Close\<close> that
  \<^verbatim>\<open>WriteRecord\<close> makes at the end of the sequence fails; for the second a thread calls
  \<^verbatim>\<open>Cancel\<close> after the iterator has reported the end, before the chunk is committed.
\<close>

definition close_fails_at_end :: SnapshotStreamWriter where
  "close_fails_at_end =
     new_SnapshotStreamWriter [EndOfSequence] (Some 500)
       [OkStatus, OkStatus, Error DATA_LOSS ''close''] []"

definition cancel_after_end :: SnapshotStreamWriter where
  "cancel_after_end =
     new_SnapshotStreamWriter [EndOfSequence] (Some 500) []
       [False, False, False, False, True]"

text \<open>
  The end of the sequence reported with no error before it does not give a committed chunk
  and ok from \<^verbatim>\<open>Wait\<close>. In the first run nothing has failed when the iterator reports the
  end; the close then fails, the thread ends, \<^verbatim>\<open>chunk_0\<close> stays in the uncommitted
  directory and \<^verbatim>\<open>Wait\<close> returns the error of the close. In the second run no call fails at
  all and \<^verbatim>\<open>chunk_0\<close> is committed, but \<^verbatim>\<open>Wait\<close> returns the cancellation.
\<close>

theorem tail_not_committed_or_wait_not_ok:
  "failures (takeWhile (\<lambda>ev. ev \<noteq> EvGetNext EndOfSequence)
      (trace (snd (snapshot_fn 2 close_fails_at_end)))) = [] \<and>
   EvGetNext EndOfSequence \<in> set (trace (snd (snapshot_fn 2 close_fails_at_end))) \<and>
   fst (snapshot_fn 2 close_fails_at_end) \<and>
   committed_chunks (snd (snapshot_fn 2 close_fails_at_end)) = [] \<and>
   uncommitted_chunks (snd (snapshot_fn 2 close_fails_at_end)) 0 = Some [] \<and>
   fst (Wait (snd (snapshot_fn 2 close_fails_at_end))) = Error DATA_LOSS ''close'' \<and>
   failures (trace (snd (snapshot_fn 2 cancel_after_end))) = [] \<and>
   EvGetNext EndOfSequence \<in> set (trace (snd (snapshot_fn 2 cancel_after_end))) \<and>
   fst (snapshot_fn 2 cancel_after_end) \<and>
   committed_chunks (snd (snapshot_fn 2 cancel_after_end)) = [(0, [])] \<and>
   fst (Wait (snd (snapshot_fn 2 cancel_after_end))) = Error CANCELLED kCancelledMessage"
  unfolding close_fails_at_end_def cancel_after_end_def by code_simp

text \<open>
  C6, as the code has it: take a run in which the iterator has reported the end of the
  sequence and no call has failed, before the report or after it. Then the chunk that was
  open is closed and committed, also when a thread calls \<^verbatim>\<open>Cancel\<close>: it is the last chunk of
  the committed directory, whatever the number of its records, and \<^verbatim>\<open>WriteRecord\<close> has
  closed its record writer; nothing is left in the uncommitted directory, and the committed
  chunks hold all the elements the iterator gave. The thread ends at the next test of
  \<^verbatim>\<open>ShouldWriteChunk\<close> with the same committed chunks, and \<^verbatim>\<open>Wait\<close> returns ok when no
  thread calls \<^verbatim>\<open>Cancel\<close>.
\<close>

theorem end_of_sequence_commits_tail:
  assumes run: "snapshot_fn n (new_SnapshotStreamWriter it mx rs cs) = (fin, s')"
    and eos: "EvGetNext EndOfSequence \<in> set (trace s')"
    and nf: "failures (trace s') = []"
  shows "committed_chunks s' \<noteq> [] \<and>
     EvClose (fst (last (committed_chunks s'))) OkStatus \<in> set (trace s') \<and>
     uncommitted_chunks s' = Map.empty \<and>
     concat (map snd (committed_chunks s')) = pulled (trace s') \<and>
     fst (snapshot_fn (Suc n) (new_SnapshotStreamWriter it mx rs cs)) \<and>
     committed_chunks (snd (snapshot_fn (Suc n) (new_SnapshotStreamWriter it mx rs cs))) =
       committed_chunks s' \<and>
     (True \<notin> set cs \<longrightarrow>
        fst (Wait (snd (snapshot_fn (Suc n) (new_SnapshotStreamWriter it mx rs cs)))) = OkStatus)"
proof -
  let ?s = "new_SnapshotStreamWriter it mx rs cs" and ?m = "configured_max mx"
  let ?q = "True \<notin> set cs"
  obtain r1 s1 where d: "CreateChunksDirectory ?s = (r1, s1)"
    by (cases "CreateChunksDirectory ?s")
  obtain res s2 where l: "WriteSnapshotFn_loop n s1 = (res, s2)"
    by (cases "WriteSnapshotFn_loop n s1")
  from draining_CreateChunksDirectory [OF draining_new d]
  have post1: "if ok r1 then draining ?q ?m s1 else failures (trace s1) = [r1]" .
  have ok1: "r1 = OkStatus"
  proof (cases r1)
    case (Error c e)
    with d run post1 have "failures (trace s') = [r1]"
      by (auto simp: snapshot_fn_def WriteSnapshotFn_def drain_simps)
    with nf show ?thesis by simp
  qed simp
  with post1 have d1: "draining ?q ?m s1" by simp
  from d ok1 l have w: "WriteSnapshotFn n ?s = (res, s2)" by (simp add: WriteSnapshotFn_def)
  have s': "s' = (case res of None \<Rightarrow> s2 | Some r \<Rightarrow> finish r s2)"
    using run w snapshot_fn_finish [of n ?s _ s2]
    by (cases res) (auto simp: snapshot_fn_def)
  have nf2: "failures (trace s2) = []"
    using s' nf finish_frame by (cases res) auto
  from draining_WriteSnapshotFn_loop [OF d1 l nf2]
  have d2: "draining ?q ?m s2"
    and res: "res = None \<or> (\<exists>r. res = Some r \<and> (?q \<longrightarrow> r = OkStatus))" by simp_all
  have same: "committed_chunks s' = committed_chunks s2"
    "uncommitted_chunks s' = uncommitted_chunks s2" "pulled (trace s') = pulled (trace s2)"
    "set (trace s2) \<subseteq> set (trace s')"
    using s' finish_frame by (cases res; auto)+
  have flag': "end_of_sequence s'"
    using eos_snapshot_fn [of n it mx rs cs] run end_reported_event [OF eos, of False]
    by (simp add: eos_inv_def)
  have flag: "end_of_sequence s2"
    using flag' s' finish_frame by (cases res) auto
  have "\<exists>r s4. WriteSnapshotFn_loop (Suc n) s1 = (Some r, s4) \<and> (?q \<longrightarrow> r = OkStatus) \<and>
      draining ?q ?m s4 \<and> committed_chunks s4 = committed_chunks s2"
  proof (cases res)
    case None
    with l WriteSnapshotFn_loop_resume [of n s1 s2] draining_at_end [OF d2 flag]
    show ?thesis by simp
  next
    case (Some r)
    with res l WriteSnapshotFn_loop_more_fuel [of n s1 r s2] d2 show ?thesis by auto
  qed
  then obtain r s4 where four: "WriteSnapshotFn_loop (Suc n) s1 = (Some r, s4)"
    and rq: "?q \<longrightarrow> r = OkStatus" and d4: "draining ?q ?m s4"
    and c4: "committed_chunks s4 = committed_chunks s2" by blast
  from d ok1 four have "WriteSnapshotFn (Suc n) ?s = (Some r, s4)"
    by (simp add: WriteSnapshotFn_def)
  from snapshot_fn_finish [OF this] have fin: "snapshot_fn (Suc n) ?s = (True, finish r s4)" .
  have wait: "?q \<longrightarrow> fst (Wait (finish r s4)) = OkStatus"
    using d4 rq finish_frame [of r s4]
    by (auto simp: draining_def calm_def Wait_def mutex_lock_def mutex_unlock_def Let_def
        no_cancel_pending)
  show ?thesis
    using d2 flag same fin c4 wait finish_frame [of r s4]
    by (auto simp: draining_def at_boundary_def)
qed

text \<open>A writer whose iterator has no element: \<^verbatim>\<open>chunk_0\<close> is committed with no record.\<close>

definition empty_iterator :: SnapshotStreamWriter where
  "empty_iterator = new_SnapshotStreamWriter [EndOfSequence] (Some 500) [] []"

theorem end_of_sequence_commits_tail_witness:
  "EvGetNext EndOfSequence \<in> set (trace (snd (snapshot_fn 1 empty_iterator))) \<and>
   failures (trace (snd (snapshot_fn 1 empty_iterator))) = [] \<and>
   True \<notin> set ([] :: bool list) \<and>
   committed_chunks (snd (snapshot_fn 1 empty_iterator)) = [(0, [])] \<and>
   EvClose 0 OkStatus \<in> set (trace (snd (snapshot_fn 1 empty_iterator))) \<and>
   uncommitted_chunks (snd (snapshot_fn 1 empty_iterator)) = Map.empty \<and>
   fst (snapshot_fn 2 empty_iterator) \<and>
   fst (Wait (snd (snapshot_fn 2 empty_iterator))) = OkStatus"
proof -
  have 1: "EvGetNext EndOfSequence \<in> set (trace (snd (snapshot_fn 1 empty_iterator)))"
    unfolding empty_iterator_def by code_simp
  have 2: "failures (trace (snd (snapshot_fn 1 empty_iterator))) = []"
    unfolding empty_iterator_def by code_simp
  have 3: "committed_chunks (snd (snapshot_fn 1 empty_iterator)) = [(0, [])]"
    unfolding empty_iterator_def by code_simp
  have 4: "snapshot_fn 1 empty_iterator =
      (fst (snapshot_fn 1 empty_iterator), snd (snapshot_fn 1 empty_iterator))" by simp
  from end_of_sequence_commits_tail [OF 4 [unfolded empty_iterator_def], folded empty_iterator_def,
      OF 1 2] 3
  show ?thesis using 1 2 by (simp add: numeral_2_eq_2)
qed

end
